theory Spec2Isabelle
  imports Main
begin

section \<open>Data model\<close>

text \<open>
  A block of the tree (\<open>ContentBlockNode\<close>): an immutable record. The fields are named
  after the accessors the operations call. \<open>null\<close> references are \<open>None\<close>. The two
  remaining fields of the record (the character list and the data map) are neither read
  nor written by the tree operations and are left out.
\<close>

record ContentBlockNode =
  getKey :: string
  getText :: string
  getDepth :: int
  getType :: string
  getParentKey :: "string option"
  getPrevSiblingKey :: "string option"
  getNextSiblingKey :: "string option"
  getChildKeys :: "string list"

text \<open>
  The block map is an \<open>Immutable.OrderedMap\<close> from key to block: an association list
  in iteration order. An ordered map never holds a key twice.
\<close>

type_synonym BlockMap = "(string \<times> ContentBlockNode) list"

definition OMap_keys :: "BlockMap \<Rightarrow> string list" where
  "OMap_keys m = map fst m"

definition ordered_map :: "BlockMap \<Rightarrow> bool" where
  "ordered_map m = distinct (OMap_keys m)"

datatype SiblingInsertPosition = SiblingPrevious | SiblingNext

text \<open>
  \<open>invariant(cond, msg)\<close> throws an error carrying the message (the precondition
  error of the operations); calling a method on \<open>undefined\<close> is a \<open>TypeError\<close>.
\<close>

datatype error = InvariantViolation string | TypeError

definition err_bind :: "error + 'a \<Rightarrow> ('a \<Rightarrow> error + 'b) \<Rightarrow> error + 'b" where
  "err_bind r f = (case r of Inl e \<Rightarrow> Inl e | Inr x \<Rightarrow> f x)"

section \<open>The operations of the immutable containers that the code calls\<close>

subsection \<open>Ordered map\<close>

text \<open>\<open>get\<close>: the block stored under a key, \<open>None\<close> for \<open>undefined\<close>.\<close>

fun OMap_get :: "BlockMap \<Rightarrow> string \<Rightarrow> ContentBlockNode option" where
  "OMap_get [] k = None"
| "OMap_get ((k', v') # m) k = (if k' = k then Some v' else OMap_get m k)"

text \<open>\<open>set\<close>: an existing key keeps its place, a new key goes to the end.\<close>

fun OMap_set :: "BlockMap \<Rightarrow> string \<Rightarrow> ContentBlockNode \<Rightarrow> BlockMap" where
  "OMap_set [] k v = [(k, v)]"
| "OMap_set ((k', v') # m) k v = (if k' = k then (k, v) # m else (k', v') # OMap_set m k v)"

text \<open>
  \<open>merge\<close> and \<open>concat\<close> both set the entries of their argument one after the
  other, in its order; \<open>OrderedMap(pairs)\<close> does so from the empty map.
  The argument of \<open>merge\<close> is the plain object \<open>newBlocks\<close>: assigning
  \<open>newBlocks[k] = v\<close> replaces the property in place or adds it last, which is
  \<open>OMap_set\<close> again. (An object lists integer-like property names first; at every call
  of \<open>merge\<close> here each staged key is already a key of the block map, so the order in
  which the staged entries are set does not show.)
\<close>

definition OMap_merge :: "BlockMap \<Rightarrow> BlockMap \<Rightarrow> BlockMap" where
  "OMap_merge m newBlocks = foldl (\<lambda>acc (k, v). OMap_set acc k v) m newBlocks"

definition OMap_concat :: "BlockMap \<Rightarrow> BlockMap \<Rightarrow> BlockMap" where
  "OMap_concat m other = foldl (\<lambda>acc (k, v). OMap_set acc k v) m other"

definition OrderedMap :: "(string \<times> ContentBlockNode) list \<Rightarrow> BlockMap" where
  "OrderedMap pairs = foldl (\<lambda>acc (k, v). OMap_set acc k v) [] pairs"

definition OMap_takeUntil :: "(ContentBlockNode \<Rightarrow> bool) \<Rightarrow> BlockMap \<Rightarrow> BlockMap" where
  "OMap_takeUntil p m = takeWhile (\<lambda>(k, v). \<not> p v) m"

definition OMap_skipUntil :: "(ContentBlockNode \<Rightarrow> bool) \<Rightarrow> BlockMap \<Rightarrow> BlockMap" where
  "OMap_skipUntil p m = dropWhile (\<lambda>(k, v). \<not> p v) m"

definition OMap_slice :: "nat \<Rightarrow> BlockMap \<Rightarrow> BlockMap" where
  "OMap_slice n m = drop n m"

subsection \<open>List of child keys\<close>

text \<open>A negative index counts from the end (\<open>wrapIndex\<close>).\<close>

definition wrapIndex :: "string list \<Rightarrow> int \<Rightarrow> int" where
  "wrapIndex xs i = (if i < 0 then int (length xs) + i else i)"

definition List_get :: "string list \<Rightarrow> int \<Rightarrow> string option" where
  "List_get xs i =
     (let j = wrapIndex xs i in
      if 0 \<le> j \<and> j < int (length xs) then Some (xs ! nat j) else None)"

fun List_indexOf_from :: "string list \<Rightarrow> string \<Rightarrow> int \<Rightarrow> int" where
  "List_indexOf_from [] x i = -1"
| "List_indexOf_from (y # ys) x i = (if y = x then i else List_indexOf_from ys x (i + 1))"

definition List_indexOf :: "string list \<Rightarrow> string \<Rightarrow> int" where
  "List_indexOf xs x = List_indexOf_from xs x 0"

text \<open>
  \<open>splice(index, 0, x)\<close>: insert before \<open>index\<close>; a negative index counts from the
  end, and the result is clamped to the list.
\<close>

definition List_splice :: "string list \<Rightarrow> int \<Rightarrow> string \<Rightarrow> string list" where
  "List_splice xs i x =
     (let n = int (length xs);
          b = (if i < 0 then max 0 (n + i) else min n i)
      in take (nat b) xs @ [x] @ drop (nat b) xs)"

text \<open>
  \<open>set(index, x)\<close>: overwrite the slot; index \<open>-1\<close> is the last slot, and on the empty
  list it makes the one-element list. \<open>indexOf\<close>, the only source of the index here,
  gives \<open>-1\<close> or a slot of the list; any index further out would leave holes in the list
  and is returned unchanged by this model.
\<close>

definition List_set :: "string list \<Rightarrow> int \<Rightarrow> string \<Rightarrow> string list" where
  "List_set xs i x =
     (let j = wrapIndex xs i in
      if 0 \<le> j \<and> j < int (length xs) then xs[nat j := x]
      else if xs = [] \<and> (j = -1 \<or> j = 0) then [x]
      else xs)"

text \<open>
  \<open>delete(index)\<close>: the list itself when it has no such slot (after wrapping a
  negative index), else the list without that slot.
\<close>

definition List_delete :: "string list \<Rightarrow> int \<Rightarrow> string list" where
  "List_delete xs i =
     (let j = wrapIndex xs i in
      if 0 \<le> j \<and> j < int (length xs) then take (nat j) xs @ drop (Suc (nat j)) xs
      else xs)"

section \<open>The tree operations\<close>

text \<open>
  \<open>verifyTree\<close>: with development checks on, the tree must pass the validity
  predicate. The predicate is not part of these sources and is a parameter, as is the
  flag.
\<close>

definition verifyTree :: "bool \<Rightarrow> (BlockMap \<Rightarrow> bool) \<Rightarrow> BlockMap \<Rightarrow> error + unit" where
  "verifyTree dev isValidTree tree =
     (if dev \<and> \<not> isValidTree tree then Inl (InvariantViolation ''The tree is not valid'')
      else Inr ())"

definition updateParentChild :: "BlockMap \<Rightarrow> string \<Rightarrow> string \<Rightarrow> int \<Rightarrow> error + BlockMap" where
  "updateParentChild blockMap parentKey childKey position =
     (case OMap_get blockMap parentKey of
        None \<Rightarrow> Inl (InvariantViolation ''parent & child should exist in the block map'')
      | Some parent \<Rightarrow>
     (case OMap_get blockMap childKey of
        None \<Rightarrow> Inl (InvariantViolation ''parent & child should exist in the block map'')
      | Some child \<Rightarrow>
     (let existingChildren = getChildKeys parent in
      if \<not> (position \<ge> 0 \<and> position \<le> int (length existingChildren))
      then Inl (InvariantViolation ''position is not valid for the number of children'')
      else
     (let newBlocks1 = OMap_set [] parentKey
            (parent\<lparr>getChildKeys := List_splice existingChildren position childKey\<rparr>)
      in
      err_bind
        (if position > 0 then
           (case List_get existingChildren (position - 1) of
              None \<Rightarrow> Inl TypeError
            | Some pk \<Rightarrow>
           (case OMap_get blockMap pk of
              None \<Rightarrow> Inl TypeError
            | Some pn \<Rightarrow>
                Inr (Some pk, OMap_set newBlocks1 pk (pn\<lparr>getNextSiblingKey := Some childKey\<rparr>))))
         else Inr (None, newBlocks1))
        (\<lambda>(prevSiblingKey, newBlocks2).
      err_bind
        (if position < int (length existingChildren) then
           (case List_get existingChildren position of
              None \<Rightarrow> Inl TypeError
            | Some nk \<Rightarrow>
           (case OMap_get blockMap nk of
              None \<Rightarrow> Inl TypeError
            | Some nn \<Rightarrow>
                Inr (Some nk, OMap_set newBlocks2 nk (nn\<lparr>getPrevSiblingKey := Some childKey\<rparr>))))
         else Inr (None, newBlocks2))
        (\<lambda>(nextSiblingKey, newBlocks3).
      Inr (OMap_merge blockMap
             (OMap_set newBlocks3 childKey
                (child\<lparr>getParentKey := Some parentKey,
                       getPrevSiblingKey := prevSiblingKey,
                       getNextSiblingKey := nextSiblingKey\<rparr>)))))))))"

definition updateSibling :: "BlockMap \<Rightarrow> string \<Rightarrow> string \<Rightarrow> error + BlockMap" where
  "updateSibling blockMap prevKey nextKey =
     (case OMap_get blockMap prevKey of
        None \<Rightarrow> Inl (InvariantViolation ''siblings should exist in the block map'')
      | Some prevSibling \<Rightarrow>
     (case OMap_get blockMap nextKey of
        None \<Rightarrow> Inl (InvariantViolation ''siblings should exist in the block map'')
      | Some nextSibling \<Rightarrow>
     (let newBlocks1 = OMap_set [] prevKey (prevSibling\<lparr>getNextSiblingKey := Some nextKey\<rparr>);
          newBlocks2 = OMap_set newBlocks1 nextKey (nextSibling\<lparr>getPrevSiblingKey := Some prevKey\<rparr>)
      in Inr (OMap_merge blockMap newBlocks2))))"

definition replaceParentChild :: "BlockMap \<Rightarrow> string \<Rightarrow> string \<Rightarrow> string \<Rightarrow> error + BlockMap" where
  "replaceParentChild blockMap parentKey existingChildKey newChildKey =
     (case OMap_get blockMap parentKey of
        None \<Rightarrow> Inl (InvariantViolation ''parent & child should exist in the block map'')
      | Some parent \<Rightarrow>
     (case OMap_get blockMap newChildKey of
        None \<Rightarrow> Inl (InvariantViolation ''parent & child should exist in the block map'')
      | Some newChild \<Rightarrow>
     (let existingChildren = getChildKeys parent;
          newBlocks1 = OMap_set [] parentKey
            (parent\<lparr>getChildKeys :=
               List_set existingChildren (List_indexOf existingChildren existingChildKey) newChildKey\<rparr>);
          newBlocks2 = OMap_set newBlocks1 newChildKey (newChild\<lparr>getParentKey := Some parentKey\<rparr>)
      in Inr (OMap_merge blockMap newBlocks2))))"

text \<open>
  \<open>createNewParent\<close>. The key generator is outside these sources; the key it returns
  is the parameter \<open>newKey\<close>.
\<close>

definition createNewParent ::
  "bool \<Rightarrow> (BlockMap \<Rightarrow> bool) \<Rightarrow> string \<Rightarrow> BlockMap \<Rightarrow> string \<Rightarrow> error + BlockMap" where
  "createNewParent dev isValidTree newKey blockMap key =
     err_bind (verifyTree dev isValidTree blockMap) (\<lambda>_.
     (case OMap_get blockMap key of
        None \<Rightarrow> Inl (InvariantViolation ''block must exist in block map'')
      | Some block \<Rightarrow>
     (let newParent = \<lparr>getKey = newKey, getText = '''', getDepth = getDepth block,
                       getType = getType block, getParentKey = None,
                       getPrevSiblingKey = None, getNextSiblingKey = None,
                       getChildKeys = []\<rparr>;
          newBlockMap0 =
            OMap_concat
              (OMap_concat (OMap_takeUntil (\<lambda>b. getKey b = key) blockMap)
                 (OrderedMap [(getKey newParent, newParent)]))
              (OMap_skipUntil (\<lambda>b. getKey b = key) blockMap)
      in
      err_bind (updateParentChild newBlockMap0 (getKey newParent) key 0) (\<lambda>newBlockMap1.
      err_bind
        (case getPrevSiblingKey block of
           None \<Rightarrow> Inr newBlockMap1
         | Some prevSibling \<Rightarrow> updateSibling newBlockMap1 prevSibling (getKey newParent))
        (\<lambda>newBlockMap2.
      err_bind
        (case getNextSiblingKey block of
           None \<Rightarrow> Inr newBlockMap2
         | Some nextSibling \<Rightarrow> updateSibling newBlockMap2 (getKey newParent) nextSibling)
        (\<lambda>newBlockMap3.
      err_bind
        (case getParentKey block of
           None \<Rightarrow> Inr newBlockMap3
         | Some parent \<Rightarrow> replaceParentChild newBlockMap3 parent key (getKey newParent))
        (\<lambda>newBlockMap4.
      err_bind (verifyTree dev isValidTree newBlockMap4) (\<lambda>_. Inr newBlockMap4))))))))"

text \<open>
  \<open>updateAsSiblingsChild\<close>. The guard on the new parent is \<open>newParent !== null\<close>: a key
  that is not in the map gives \<open>undefined\<close>, which passes the guard, and the call of
  \<open>getText\<close> on it is a \<open>TypeError\<close>. Rebuilding the map in the case
  \<open>next\<close> reads the blocks of the new parent and of the key from the map; both are there
  whenever \<open>updateParentChild\<close> has returned, and the model gives \<open>TypeError\<close> for the
  branch that cannot be reached.

  Three stretches of the function body are named, so that each can be followed on its
  own: \<open>clearSibling\<close> is \<open>newBlockMap.set(newParentKey,
  newBlockMap.get(newParentKey).merge({..: null}))\<close>, \<open>flipOrder\<close> is the rebuilding of the
  map in the case \<open>next\<close>, and \<open>removeFromParent\<close> is the last step, which takes the key
  out of the children of its old parent.
\<close>

definition removeFromParent :: "BlockMap \<Rightarrow> string \<Rightarrow> string option \<Rightarrow> error + BlockMap" where
  "removeFromParent newBlockMap key parentKeyOpt =
     (case parentKeyOpt of
        None \<Rightarrow> Inr newBlockMap
      | Some parentKey \<Rightarrow>
     (case OMap_get newBlockMap parentKey of
        None \<Rightarrow> Inl TypeError
      | Some parent \<Rightarrow>
          Inr (OMap_set newBlockMap parentKey
                 (parent\<lparr>getChildKeys :=
                    List_delete (getChildKeys parent)
                      (List_indexOf (getChildKeys parent) key)\<rparr>))))"

definition clearSibling ::
  "BlockMap \<Rightarrow> string \<Rightarrow> (ContentBlockNode \<Rightarrow> ContentBlockNode) \<Rightarrow> error + BlockMap" where
  "clearSibling newBlockMap newParentKey upd =
     (case OMap_get newBlockMap newParentKey of
        None \<Rightarrow> Inl TypeError
      | Some np \<Rightarrow> Inr (OMap_set newBlockMap newParentKey (upd np)))"

definition flipOrder :: "BlockMap \<Rightarrow> string \<Rightarrow> string \<Rightarrow> error + BlockMap" where
  "flipOrder newBlockMap key newParentKey =
     (case OMap_get newBlockMap newParentKey of
        None \<Rightarrow> Inl TypeError
      | Some np \<Rightarrow>
     (case OMap_get newBlockMap key of
        None \<Rightarrow> Inl TypeError
      | Some b \<Rightarrow>
          Inr (OMap_concat
                 (OMap_concat (OMap_takeUntil (\<lambda>blk. getKey blk = key) newBlockMap)
                    (OrderedMap [(newParentKey, np), (key, b)]))
                 (OMap_slice 1 (OMap_skipUntil (\<lambda>blk. getKey blk = newParentKey) newBlockMap)))))"

definition updateAsSiblingsChild ::
  "bool \<Rightarrow> (BlockMap \<Rightarrow> bool) \<Rightarrow> BlockMap \<Rightarrow> string \<Rightarrow> SiblingInsertPosition \<Rightarrow> error + BlockMap" where
  "updateAsSiblingsChild dev isValidTree blockMap key position =
     err_bind (verifyTree dev isValidTree blockMap) (\<lambda>_.
     (case OMap_get blockMap key of
        None \<Rightarrow> Inl (InvariantViolation ''block must exist in block map'')
      | Some block \<Rightarrow>
     (case (if position = SiblingPrevious then getPrevSiblingKey block
            else getNextSiblingKey block) of
        None \<Rightarrow> Inl (InvariantViolation ''sibling is null'')
      | Some newParentKey \<Rightarrow>
     (case OMap_get blockMap newParentKey of
        None \<Rightarrow> Inl TypeError
      | Some newParent \<Rightarrow>
      if getText newParent \<noteq> '''' then Inl (InvariantViolation ''parent must be a valid node'')
      else
      err_bind
        (case position of
           SiblingNext \<Rightarrow>
             err_bind (updateParentChild blockMap newParentKey key 0) (\<lambda>newBlockMap1.
             err_bind
               (case getPrevSiblingKey block of
                  Some prevSibling \<Rightarrow> updateSibling newBlockMap1 prevSibling newParentKey
                | None \<Rightarrow>
                    clearSibling newBlockMap1 newParentKey (\<lambda>np. np\<lparr>getPrevSiblingKey := None\<rparr>))
               (\<lambda>newBlockMap2. flipOrder newBlockMap2 key newParentKey))
         | SiblingPrevious \<Rightarrow>
             err_bind
               (updateParentChild blockMap newParentKey key
                  (int (length (getChildKeys newParent))))
               (\<lambda>newBlockMap1.
               (case getNextSiblingKey block of
                  Some nextSibling \<Rightarrow> updateSibling newBlockMap1 newParentKey nextSibling
                | None \<Rightarrow>
                    clearSibling newBlockMap1 newParentKey (\<lambda>np. np\<lparr>getNextSiblingKey := None\<rparr>))))
        (\<lambda>newBlockMap3.
      err_bind (removeFromParent newBlockMap3 key (getParentKey block)) (\<lambda>newBlockMap4.
      err_bind (verifyTree dev isValidTree newBlockMap4) (\<lambda>_. Inr newBlockMap4)))))))"

section \<open>Well-formed block maps\<close>

text \<open>
  Every block is stored under its own key (\<open>getKey\<close>); the operations find a block's
  place in the map by that field.
\<close>

definition keys_consistent :: "BlockMap \<Rightarrow> bool" where
  "keys_consistent m = (\<forall>(k, b) \<in> set m. getKey b = k)"

text \<open>
  \<open>precedes m a b\<close>: \<open>a\<close> comes before \<open>b\<close> in the iteration order of \<open>m\<close>.
\<close>

definition precedes :: "BlockMap \<Rightarrow> string \<Rightarrow> string \<Rightarrow> bool" where
  "precedes m a b = (a \<in> set (takeWhile (\<lambda>k. k \<noteq> b) (OMap_keys m)) \<and> b \<in> set (OMap_keys m))"

text \<open>
  Bidirectional symmetry of the links: the next sibling of a block names it as previous
  sibling, the previous sibling names it as next sibling, and every child listed names it
  as parent; every such key is in the map.
\<close>

definition symmetric :: "BlockMap \<Rightarrow> bool" where
  "symmetric m = (\<forall>(k, b) \<in> set m.
      (case getNextSiblingKey b of None \<Rightarrow> True
       | Some nx \<Rightarrow> (case OMap_get m nx of None \<Rightarrow> False | Some nb \<Rightarrow> getPrevSiblingKey nb = Some k)) \<and>
      (case getPrevSiblingKey b of None \<Rightarrow> True
       | Some pv \<Rightarrow> (case OMap_get m pv of None \<Rightarrow> False | Some pb \<Rightarrow> getNextSiblingKey pb = Some k)) \<and>
      (\<forall>c \<in> set (getChildKeys b).
         (case OMap_get m c of None \<Rightarrow> False | Some cb \<Rightarrow> getParentKey cb = Some k)))"

text \<open>
  Modelled from the spec: what the links of a valid tree satisfy. (The checker itself,
  \<open>isValidTree\<close>, is not among these sources; it stays a parameter of the operations,
  and nothing below depends on what it computes.) An ordered map of blocks stored under
  their own keys, with symmetric links and no dangling reference, in which a block's
  parent is another block that lists it, siblings are two different blocks with the same
  parent, a block's previous and next sibling differ, no child is listed twice, and the
  first child of a block has no previous sibling and the last child no next sibling.
\<close>

definition treeLinks :: "BlockMap \<Rightarrow> bool" where
  "treeLinks m = (ordered_map m \<and> keys_consistent m \<and> symmetric m \<and>
     (\<forall>(k, b) \<in> set m.
        (case getParentKey b of None \<Rightarrow> True
         | Some p \<Rightarrow> p \<noteq> k \<and>
             (case OMap_get m p of None \<Rightarrow> False | Some pb \<Rightarrow> k \<in> set (getChildKeys pb))) \<and>
        (case getNextSiblingKey b of None \<Rightarrow> True
         | Some nx \<Rightarrow> nx \<noteq> k \<and> getPrevSiblingKey b \<noteq> Some nx \<and>
             (case OMap_get m nx of None \<Rightarrow> False | Some nb \<Rightarrow> getParentKey nb = getParentKey b)) \<and>
        distinct (getChildKeys b) \<and>
        (case getChildKeys b of [] \<Rightarrow> True
         | c # cs \<Rightarrow>
             (case OMap_get m c of None \<Rightarrow> False | Some cb \<Rightarrow> getPrevSiblingKey cb = None) \<and>
             (case OMap_get m (last (c # cs)) of None \<Rightarrow> False
              | Some lb \<Rightarrow> getNextSiblingKey lb = None))))"

text \<open>
  Modelled from the spec: the iteration order of a valid tree puts a parent before its
  children.
\<close>

definition parentsFirst :: "BlockMap \<Rightarrow> bool" where
  "parentsFirst m = (\<forall>(k, b) \<in> set m.
      (case getParentKey b of None \<Rightarrow> True | Some p \<Rightarrow> precedes m p k))"

text \<open>A block with the default depth and type, for the concrete scenarios.\<close>

definition exampleBlock ::
  "string \<Rightarrow> string \<Rightarrow> string option \<Rightarrow> string option \<Rightarrow> string option \<Rightarrow> string list \<Rightarrow> ContentBlockNode" where
  "exampleBlock k t p pr nx cs =
     \<lparr>getKey = k, getText = t, getDepth = 0, getType = ''unstyled'', getParentKey = p,
      getPrevSiblingKey = pr, getNextSiblingKey = nx, getChildKeys = cs\<rparr>"

text \<open>The collections of the concrete scenarios.\<close>

definition scenarioPXYZW :: BlockMap where
  "scenarioPXYZW =
     [(''P'', exampleBlock ''P'' '''' None None None [''X'', ''Y'', ''Z'']),
      (''X'', exampleBlock ''X'' ''x'' (Some ''P'') None (Some ''Y'') []),
      (''Y'', exampleBlock ''Y'' ''y'' (Some ''P'') (Some ''X'') (Some ''Z'') []),
      (''Z'', exampleBlock ''Z'' ''z'' (Some ''P'') (Some ''Y'') None []),
      (''W'', exampleBlock ''W'' ''w'' None None None [])]"

definition scenarioPAN :: BlockMap where
  "scenarioPAN =
     [(''P'', exampleBlock ''P'' '''' None None None [''A'', ''B'']),
      (''A'', exampleBlock ''A'' ''a'' (Some ''P'') None (Some ''B'') []),
      (''B'', exampleBlock ''B'' ''b'' (Some ''P'') (Some ''A'') None []),
      (''N'', exampleBlock ''N'' '''' None (Some ''A'') None [])]"

definition scenarioAB :: BlockMap where
  "scenarioAB =
     [(''A'', exampleBlock ''A'' ''a'' None None (Some ''B'') []),
      (''B'', exampleBlock ''B'' ''b'' None (Some ''A'') None [])]"

definition scenarioKS :: BlockMap where
  "scenarioKS =
     [(''K'', exampleBlock ''K'' '''' None None (Some ''S'') [''K1'']),
      (''K1'', exampleBlock ''K1'' ''x'' (Some ''K'') None None []),
      (''S'', exampleBlock ''S'' '''' None (Some ''K'') None [])]"

definition scenarioTree :: BlockMap where
  "scenarioTree =
     [(''P'', exampleBlock ''P'' '''' None None None [''X'', ''K'', ''S'']),
      (''X'', exampleBlock ''X'' '''' (Some ''P'') None (Some ''K'') []),
      (''K'', exampleBlock ''K'' ''k'' (Some ''P'') (Some ''X'') (Some ''S'') []),
      (''S'', exampleBlock ''S'' '''' (Some ''P'') (Some ''K'') None [''C'']),
      (''C'', exampleBlock ''C'' ''c'' (Some ''S'') None None [])]"

definition scenarioABC :: BlockMap where
  "scenarioABC =
     [(''A'', exampleBlock ''A'' ''a'' None None (Some ''B'') []),
      (''B'', exampleBlock ''B'' ''b'' None (Some ''A'') None []),
      (''C'', exampleBlock ''C'' ''c'' None None None [])]"

section \<open>Basic facts about the containers\<close>

lemma OMap_get_set: "OMap_get (OMap_set m k v) k' = (if k' = k then Some v else OMap_get m k')"
  by (induction m) auto

lemma OMap_keys_set:
  "OMap_keys (OMap_set m k v) = (if k \<in> set (OMap_keys m) then OMap_keys m else OMap_keys m @ [k])"
  by (induction m) (force simp: OMap_keys_def)+

lemma OMap_get_None_iff: "OMap_get m k = None \<longleftrightarrow> k \<notin> set (OMap_keys m)"
  by (induction m) (force simp: OMap_keys_def split: if_splits)+

lemma OMap_get_Some_keys: "OMap_get m k = Some v \<Longrightarrow> k \<in> set (OMap_keys m)"
  using OMap_get_None_iff[of m k] by auto

lemma updateSibling_result:
  assumes "OMap_get m a = Some pa" "OMap_get m b = Some nb"
  shows "\<exists>m'. updateSibling m a b = Inr m' \<and> OMap_keys m' = OMap_keys m \<and>
      (\<forall>k. OMap_get m' k =
        (if k = b then Some (nb\<lparr>getPrevSiblingKey := Some a\<rparr>)
         else if k = a then Some (pa\<lparr>getNextSiblingKey := Some b\<rparr>)
         else OMap_get m k))"
  using assms OMap_get_Some_keys[OF assms(1)] OMap_get_Some_keys[OF assms(2)]
  by (auto simp: updateSibling_def OMap_merge_def OMap_get_set OMap_keys_set)

lemma replaceParentChild_result:
  assumes "OMap_get m p = Some parent" "OMap_get m c = Some newChild"
  shows "\<exists>m'. replaceParentChild m p old c = Inr m' \<and> OMap_keys m' = OMap_keys m \<and>
      (\<forall>k. OMap_get m' k =
        (if k = c then Some (newChild\<lparr>getParentKey := Some p\<rparr>)
         else if k = p then Some (parent\<lparr>getChildKeys :=
               List_set (getChildKeys parent) (List_indexOf (getChildKeys parent) old) c\<rparr>)
         else OMap_get m k))"
  using assms OMap_get_Some_keys[OF assms(1)] OMap_get_Some_keys[OF assms(2)]
  by (auto simp: replaceParentChild_def OMap_merge_def OMap_get_set OMap_keys_set Let_def)

subsection \<open>Lists of child keys\<close>

lemma List_get_in_range:
  "0 \<le> i \<Longrightarrow> i < int (length xs) \<Longrightarrow> List_get xs i = Some (xs ! nat i)"
  by (simp add: List_get_def wrapIndex_def)

lemma List_splice_in_range:
  "0 \<le> i \<Longrightarrow> i \<le> int (length xs) \<Longrightarrow>
   List_splice xs i x = take (nat i) xs @ [x] @ drop (nat i) xs"
  by (simp add: List_splice_def Let_def min_def)

lemma List_indexOf_from_notin: "x \<notin> set xs \<Longrightarrow> List_indexOf_from xs x i = -1"
  by (induction xs arbitrary: i) auto

lemma List_indexOf_from_in:
  "x \<in> set xs \<Longrightarrow>
   \<exists>j < length xs. List_indexOf_from xs x i = i + int j \<and> xs ! j = x \<and> x \<notin> set (take j xs)"
proof (induction xs arbitrary: i)
  case Nil
  then show ?case by simp
next
  case (Cons y ys)
  show ?case
  proof (cases "y = x")
    case True
    then show ?thesis by (intro exI[of _ 0]) simp
  next
    case False
    with Cons.prems have "x \<in> set ys" by simp
    from Cons.IH[OF this, of "i + 1"] obtain j where
      j: "j < length ys" "List_indexOf_from ys x (i + 1) = i + 1 + int j" "ys ! j = x"
         "x \<notin> set (take j ys)" by blast
    with False show ?thesis by (intro exI[of _ "Suc j"]) simp
  qed
qed

lemma List_indexOf_notin: "x \<notin> set xs \<Longrightarrow> List_indexOf xs x = -1"
  by (simp add: List_indexOf_def List_indexOf_from_notin)

lemma List_indexOf_in:
  "x \<in> set xs \<Longrightarrow>
   \<exists>j < length xs. List_indexOf xs x = int j \<and> xs ! j = x \<and> x \<notin> set (take j xs)"
  using List_indexOf_from_in[of x xs 0] by (simp add: List_indexOf_def)

lemma List_set_last:
  "xs \<noteq> [] \<Longrightarrow> List_set xs (-1) x = butlast xs @ [x]"
proof -
  assume ne: "xs \<noteq> []"
  then have "nat (int (length xs) - 1) = length xs - 1" by (cases xs) auto
  moreover have "xs[length xs - 1 := x] = butlast xs @ [x]"
    using ne by (induction xs) (auto split: nat.splits)
  ultimately show ?thesis using ne by (simp add: List_set_def wrapIndex_def Let_def)
qed

lemma List_set_in_range:
  "j < length xs \<Longrightarrow> List_set xs (int j) x = xs[j := x]"
  by (simp add: List_set_def wrapIndex_def Let_def)

lemma remove1_at_first:
  "j < length xs \<Longrightarrow> xs ! j \<notin> set (take j xs) \<Longrightarrow> remove1 (xs ! j) xs = take j xs @ drop (Suc j) xs"
proof (induction xs arbitrary: j)
  case Nil
  then show ?case by simp
next
  case (Cons y ys)
  then show ?case by (cases j) auto
qed

lemma List_delete_indexOf_in:
  "x \<in> set xs \<Longrightarrow> List_delete xs (List_indexOf xs x) = remove1 x xs"
proof -
  assume "x \<in> set xs"
  from List_indexOf_in[OF this] obtain j where
    j: "j < length xs" "List_indexOf xs x = int j" "xs ! j = x" "x \<notin> set (take j xs)" by blast
  then show ?thesis
    using remove1_at_first[of j xs] by (simp add: List_delete_def wrapIndex_def Let_def)
qed

section \<open>What the three primitives return\<close>

lemma updateParentChild_result:
  assumes p: "OMap_get m p = Some parent" and c: "OMap_get m c = Some child"
    and pos: "0 \<le> pos" "pos \<le> int (length (getChildKeys parent))"
    and pn: "0 < pos \<Longrightarrow> OMap_get m (getChildKeys parent ! nat (pos - 1)) = Some pn"
    and nn: "pos < int (length (getChildKeys parent)) \<Longrightarrow> OMap_get m (getChildKeys parent ! nat pos) = Some nn"
  shows "\<exists>m'. updateParentChild m p c pos = Inr m' \<and> OMap_keys m' = OMap_keys m \<and>
      (\<forall>k. OMap_get m' k =
        (if k = c then
           Some (child\<lparr>getParentKey := Some p,
                   getPrevSiblingKey := (if 0 < pos then Some (getChildKeys parent ! nat (pos - 1)) else None),
                   getNextSiblingKey := (if pos < int (length (getChildKeys parent)) then Some (getChildKeys parent ! nat pos) else None)\<rparr>)
         else if pos < int (length (getChildKeys parent)) \<and> k = getChildKeys parent ! nat pos then
           Some (nn\<lparr>getPrevSiblingKey := Some c\<rparr>)
         else if 0 < pos \<and> k = getChildKeys parent ! nat (pos - 1) then
           Some (pn\<lparr>getNextSiblingKey := Some c\<rparr>)
         else if k = p then
           Some (parent\<lparr>getChildKeys := take (nat pos) (getChildKeys parent) @ [c] @ drop (nat pos) (getChildKeys parent)\<rparr>)
         else OMap_get m k))"
proof -
  note ks = OMap_get_Some_keys[OF p] OMap_get_Some_keys[OF c]
  show ?thesis
  proof (cases "0 < pos")
    case True
    note pk = OMap_get_Some_keys[OF pn[OF True]]
    show ?thesis
    proof (cases "pos < int (length (getChildKeys parent))")
      case True
      note nk = OMap_get_Some_keys[OF nn[OF True]]
      from \<open>0 < pos\<close> True p c pos pn nn ks pk nk show ?thesis
        by (auto simp: updateParentChild_def OMap_merge_def OMap_get_set OMap_keys_set Let_def
            err_bind_def List_get_in_range List_splice_in_range)
    next
      case False
      from \<open>0 < pos\<close> False p c pos pn ks pk show ?thesis
        by (auto simp: updateParentChild_def OMap_merge_def OMap_get_set OMap_keys_set Let_def
            err_bind_def List_get_in_range List_splice_in_range)
    qed
  next
    case False
    show ?thesis
    proof (cases "pos < int (length (getChildKeys parent))")
      case True
      note nk = OMap_get_Some_keys[OF nn[OF True]]
      from False True p c pos nn ks nk show ?thesis
        by (auto simp: updateParentChild_def OMap_merge_def OMap_get_set OMap_keys_set Let_def
            err_bind_def List_get_in_range List_splice_in_range)
    next
      case False
      from \<open>\<not> 0 < pos\<close> False p c pos ks show ?thesis
        by (auto simp: updateParentChild_def OMap_merge_def OMap_get_set OMap_keys_set Let_def
            err_bind_def List_get_in_range List_splice_in_range)
    qed
  qed
qed

section \<open>Iteration order and rebuilt maps\<close>

lemma OMap_keys_foldl_set_prefix:
  "\<exists>ys. OMap_keys (foldl (\<lambda>acc (k, v). OMap_set acc k v) m xs) = OMap_keys m @ ys"
proof (induction xs arbitrary: m)
  case Nil
  then show ?case by simp
next
  case (Cons x xs)
  obtain k v where x: "x = (k, v)" by (cases x)
  from Cons.IH[of "OMap_set m k v"] obtain ys where
    "OMap_keys (foldl (\<lambda>acc (k, v). OMap_set acc k v) (OMap_set m k v) xs) = OMap_keys (OMap_set m k v) @ ys"
    by blast
  then show ?case by (auto simp: x OMap_keys_set)
qed

lemma OMap_keys_foldl_set_set:
  "set (OMap_keys (foldl (\<lambda>acc (k, v). OMap_set acc k v) m xs)) = set (OMap_keys m) \<union> fst ` set xs"
  by (induction xs arbitrary: m) (auto simp: OMap_keys_set split: if_splits)

lemma ordered_map_set: "ordered_map m \<Longrightarrow> ordered_map (OMap_set m k v)"
  by (simp add: ordered_map_def OMap_keys_set)

lemma ordered_map_foldl_set:
  "ordered_map m \<Longrightarrow> ordered_map (foldl (\<lambda>acc (k, v). OMap_set acc k v) m xs)"
  by (induction xs arbitrary: m) (auto simp: ordered_map_set)

lemma OMap_get_in: "ordered_map m \<Longrightarrow> (k, v) \<in> set m \<Longrightarrow> OMap_get m k = Some v"
  by (induction m) (auto simp: ordered_map_def OMap_keys_def rev_image_eqI)

lemma OMap_get_Some_in: "OMap_get m k = Some v \<Longrightarrow> (k, v) \<in> set m"
  by (induction m) (auto split: if_splits)

lemma OMap_get_foldl_set_sub:
  assumes "\<And>k v. (k, v) \<in> set xs \<Longrightarrow> g k = Some v" "\<And>k v. OMap_get m k = Some v \<Longrightarrow> g k = Some v"
    and "OMap_get (foldl (\<lambda>acc (k, v). OMap_set acc k v) m xs) k = Some v"
  shows "g k = Some v"
  using assms
proof (induction xs arbitrary: m)
  case Nil
  then show ?case by simp
next
  case (Cons x xs)
  obtain k' v' where x: "x = (k', v')" by (cases x)
  show ?case
  proof (rule Cons.IH[of "OMap_set m k' v'"])
    show "\<And>k v. (k, v) \<in> set xs \<Longrightarrow> g k = Some v" using Cons.prems(1) by simp
    show "\<And>k v. OMap_get (OMap_set m k' v') k = Some v \<Longrightarrow> g k = Some v"
      using Cons.prems(1)[of k' v'] Cons.prems(2) by (auto simp: OMap_get_set x split: if_splits)
    show "OMap_get (foldl (\<lambda>acc (k, v). OMap_set acc k v) (OMap_set m k' v') xs) k = Some v"
      using Cons.prems(3) by (simp add: x)
  qed
qed

lemma takeUntil_keys_consistent:
  "keys_consistent m \<Longrightarrow> OMap_takeUntil (\<lambda>b. getKey b = key) m = takeWhile (\<lambda>(k, b). k \<noteq> key) m"
  unfolding OMap_takeUntil_def keys_consistent_def
  by (intro takeWhile_cong) auto

lemma skipUntil_keys_consistent:
  "keys_consistent m \<Longrightarrow> OMap_skipUntil (\<lambda>b. getKey b = key) m = dropWhile (\<lambda>(k, b). k \<noteq> key) m"
  unfolding OMap_skipUntil_def keys_consistent_def
  by (intro dropWhile_cong) auto

lemma OMap_keys_takeWhile:
  "OMap_keys (takeWhile (\<lambda>(k, b). k \<noteq> key) m) = takeWhile (\<lambda>k. k \<noteq> key) (OMap_keys m)"
  by (simp add: OMap_keys_def takeWhile_map case_prod_unfold comp_def)

lemma OMap_keys_dropWhile:
  "OMap_keys (dropWhile (\<lambda>(k, b). k \<noteq> key) m) = dropWhile (\<lambda>k. k \<noteq> key) (OMap_keys m)"
  by (simp add: OMap_keys_def dropWhile_map case_prod_unfold comp_def)

lemma keys_consistent_sub:
  assumes "ordered_map r" "keys_consistent m" "\<And>k v. OMap_get r k = Some v \<Longrightarrow> OMap_get m k = Some v"
  shows "keys_consistent r"
  unfolding keys_consistent_def
proof clarify
  fix k b assume "(k, b) \<in> set r"
  then have "OMap_get r k = Some b" using assms(1) by (rule OMap_get_in[rotated])
  then have "(k, b) \<in> set m" using assms(3) OMap_get_Some_in by blast
  then show "getKey b = k" using assms(2) by (auto simp: keys_consistent_def)
qed

lemma flipOrder_result:
  assumes om: "ordered_map m" and kc: "keys_consistent m"
    and S: "OMap_get m S = Some np" and K: "OMap_get m K = Some b" and ne: "K \<noteq> S"
  shows "\<exists>r. flipOrder m K S = Inr r \<and> ordered_map r \<and> keys_consistent r \<and> precedes r S K \<and>
     (\<forall>k v. OMap_get r k = Some v \<longrightarrow> OMap_get m k = Some v) \<and>
     set (OMap_keys r) = set (takeWhile (\<lambda>k. k \<noteq> K) (OMap_keys m)) \<union> {S, K} \<union>
        set (drop 1 (dropWhile (\<lambda>k. k \<noteq> S) (OMap_keys m)))"
proof -
  let ?f = "\<lambda>acc (k, v). OMap_set acc k v"
  define pre where "pre = takeWhile (\<lambda>(k, b). k \<noteq> K) m"
  define post where "post = drop 1 (dropWhile (\<lambda>(k, b). k \<noteq> S) m)"
  define mid where "mid = foldl ?f pre [(S, np), (K, b)]"
  define r where "r = foldl ?f mid post"
  have r: "flipOrder m K S = Inr r"
    using S K ne
    by (simp add: flipOrder_def takeUntil_keys_consistent[OF kc] skipUntil_keys_consistent[OF kc]
        OMap_concat_def OrderedMap_def OMap_slice_def r_def mid_def pre_def post_def)
  have pre_sub: "set pre \<subseteq> set m" unfolding pre_def using set_takeWhileD by fastforce
  have post_sub: "set post \<subseteq> set m" unfolding post_def
    by (meson in_set_dropD set_dropWhileD subsetI)
  have pre_keys: "OMap_keys pre = takeWhile (\<lambda>k. k \<noteq> K) (OMap_keys m)"
    unfolding pre_def by (rule OMap_keys_takeWhile)
  have post_keys: "OMap_keys post = drop 1 (dropWhile (\<lambda>k. k \<noteq> S) (OMap_keys m))"
    unfolding post_def using OMap_keys_dropWhile[of S m] by (simp add: OMap_keys_def drop_map[symmetric])
  have K_pre: "K \<notin> set (OMap_keys pre)"
    unfolding pre_keys using set_takeWhileD by fastforce
  have om_pre: "ordered_map pre"
    using om unfolding ordered_map_def pre_keys by (rule distinct_takeWhile)
  have om_mid: "ordered_map mid" unfolding mid_def using om_pre by (rule ordered_map_foldl_set)
  have om_r: "ordered_map r" unfolding r_def using om_mid by (rule ordered_map_foldl_set)
  have mid_keys: "OMap_keys mid = (if S \<in> set (OMap_keys pre) then OMap_keys pre @ [K] else OMap_keys pre @ [S, K])"
    using K_pre ne by (simp add: mid_def OMap_keys_set)
  obtain ys where ys: "OMap_keys r = OMap_keys mid @ ys"
    unfolding r_def using OMap_keys_foldl_set_prefix by blast
  have all_pre: "\<forall>k \<in> set (OMap_keys pre). k \<noteq> K" using K_pre by blast
  have prec: "precedes r S K"
  proof (cases "S \<in> set (OMap_keys pre)")
    case True
    then have "OMap_keys r = OMap_keys pre @ K # ys" using ys mid_keys by simp
    then have "takeWhile (\<lambda>k. k \<noteq> K) (OMap_keys r) = OMap_keys pre" "K \<in> set (OMap_keys r)"
      using all_pre by (simp_all add: takeWhile_append2)
    with True show ?thesis by (simp add: precedes_def)
  next
    case False
    then have "OMap_keys r = (OMap_keys pre @ [S]) @ K # ys" using ys mid_keys by simp
    moreover have "takeWhile (\<lambda>k. k \<noteq> K) ((OMap_keys pre @ [S]) @ K # ys) =
        (OMap_keys pre @ [S]) @ takeWhile (\<lambda>k. k \<noteq> K) (K # ys)"
      by (rule takeWhile_append2) (use all_pre ne in auto)
    ultimately have "takeWhile (\<lambda>k. k \<noteq> K) (OMap_keys r) = OMap_keys pre @ [S]" "K \<in> set (OMap_keys r)"
      by simp_all
    then show ?thesis by (simp add: precedes_def)
  qed
  have mid_sub: "OMap_get mid k = Some v \<Longrightarrow> OMap_get m k = Some v" for k v
    unfolding mid_def
  proof (rule OMap_get_foldl_set_sub[where g = "OMap_get m" and xs = "[(S, np), (K, b)]" and m = pre])
    show "\<And>k v. (k, v) \<in> set [(S, np), (K, b)] \<Longrightarrow> OMap_get m k = Some v" using S K by auto
    show "\<And>k v. OMap_get pre k = Some v \<Longrightarrow> OMap_get m k = Some v"
      using OMap_get_Some_in pre_sub OMap_get_in[OF om] by blast
  qed
  have r_sub: "OMap_get r k = Some v \<Longrightarrow> OMap_get m k = Some v" for k v
    unfolding r_def
  proof (rule OMap_get_foldl_set_sub[where g = "OMap_get m" and xs = post and m = mid])
    show "\<And>k v. (k, v) \<in> set post \<Longrightarrow> OMap_get m k = Some v"
      using post_sub OMap_get_in[OF om] by blast
    show "\<And>k v. OMap_get mid k = Some v \<Longrightarrow> OMap_get m k = Some v" by (rule mid_sub)
  qed
  have kc_r: "keys_consistent r" using om_r kc r_sub by (rule keys_consistent_sub)
  have keys_r: "set (OMap_keys r) = set (takeWhile (\<lambda>k. k \<noteq> K) (OMap_keys m)) \<union> {S, K} \<union>
        set (drop 1 (dropWhile (\<lambda>k. k \<noteq> S) (OMap_keys m)))"
  proof -
    have "set (OMap_keys r) = set (OMap_keys mid) \<union> set (OMap_keys post)"
      unfolding r_def OMap_keys_foldl_set_set by (simp add: OMap_keys_def)
    moreover have "set (OMap_keys mid) = set (OMap_keys pre) \<union> {S, K}"
      using mid_keys by auto
    ultimately show ?thesis by (simp add: pre_keys post_keys)
  qed
  show ?thesis
    using r om_r kc_r prec r_sub keys_r by blast
qed

section \<open>The steps of the composite operations\<close>

lemma keys_consistent_get:
  "keys_consistent m \<Longrightarrow> OMap_get m k = Some v \<Longrightarrow> getKey v = k"
  using OMap_get_Some_in[of m k v] by (auto simp: keys_consistent_def)

lemma keys_consistent_intro:
  assumes "ordered_map m" "\<And>k v. OMap_get m k = Some v \<Longrightarrow> getKey v = k"
  shows "keys_consistent m"
  unfolding keys_consistent_def using OMap_get_in[OF assms(1)] assms(2) by blast

lemma clearSibling_result:
  assumes "OMap_get m k = Some np"
  shows "clearSibling m k upd = Inr (OMap_set m k (upd np))"
    and "OMap_keys (OMap_set m k (upd np)) = OMap_keys m"
  using assms OMap_get_Some_keys[OF assms] by (simp_all add: clearSibling_def OMap_keys_set)

lemma removeFromParent_result:
  assumes "OMap_get m p = Some pn" "key \<in> set (getChildKeys pn)"
  shows "removeFromParent m key (Some p) =
           Inr (OMap_set m p (pn\<lparr>getChildKeys := remove1 key (getChildKeys pn)\<rparr>))"
    and "OMap_keys (OMap_set m p (pn\<lparr>getChildKeys := remove1 key (getChildKeys pn)\<rparr>)) = OMap_keys m"
  using assms OMap_get_Some_keys[OF assms(1)]
  by (simp_all add: removeFromParent_def OMap_keys_set List_delete_indexOf_in)

lemma precedes_keys_eq: "OMap_keys m' = OMap_keys m \<Longrightarrow> precedes m' a b = precedes m a b"
  by (simp add: precedes_def)

lemma updateParentChild_first_result:
  assumes p: "OMap_get m p = Some parent" and c: "OMap_get m c = Some child"
    and nn: "case getChildKeys parent of [] \<Rightarrow> True | c0 # rest \<Rightarrow> OMap_get m c0 \<noteq> None"
  shows "\<exists>m'. updateParentChild m p c 0 = Inr m' \<and> OMap_keys m' = OMap_keys m \<and>
      (\<forall>k. OMap_get m' k =
        (if k = c then
           Some (child\<lparr>getParentKey := Some p, getPrevSiblingKey := None,
                   getNextSiblingKey := (case getChildKeys parent of [] \<Rightarrow> None | c0 # rest \<Rightarrow> Some c0)\<rparr>)
         else if (case getChildKeys parent of [] \<Rightarrow> False | c0 # rest \<Rightarrow> k = c0) then
           Some ((the (OMap_get m k))\<lparr>getPrevSiblingKey := Some c\<rparr>)
         else if k = p then Some (parent\<lparr>getChildKeys := c # getChildKeys parent\<rparr>)
         else OMap_get m k))"
proof (cases "getChildKeys parent")
  case Nil
  have "\<exists>m'. updateParentChild m p c 0 = Inr m' \<and> OMap_keys m' = OMap_keys m \<and>
      (\<forall>k. OMap_get m' k =
        (if k = c then
           Some (child\<lparr>getParentKey := Some p, getPrevSiblingKey := None, getNextSiblingKey := None\<rparr>)
         else if k = p then Some (parent\<lparr>getChildKeys := [c]\<rparr>)
         else OMap_get m k))"
    using updateParentChild_result[OF p c, of 0 undefined undefined] by (simp add: Nil cong: if_cong)
  then obtain m' where m': "updateParentChild m p c 0 = Inr m'" "OMap_keys m' = OMap_keys m"
    "\<And>k. OMap_get m' k =
        (if k = c then
           Some (child\<lparr>getParentKey := Some p, getPrevSiblingKey := None, getNextSiblingKey := None\<rparr>)
         else if k = p then Some (parent\<lparr>getChildKeys := [c]\<rparr>)
         else OMap_get m k)"
    by blast
  show ?thesis
    by (rule exI[of _ m']) (simp add: m' Nil)
next
  case (Cons c0 rest)
  with nn obtain n0 where n0: "OMap_get m c0 = Some n0" by auto
  have "\<exists>m'. updateParentChild m p c 0 = Inr m' \<and> OMap_keys m' = OMap_keys m \<and>
      (\<forall>k. OMap_get m' k =
        (if k = c then
           Some (child\<lparr>getParentKey := Some p, getPrevSiblingKey := None, getNextSiblingKey := Some c0\<rparr>)
         else if k = c0 then Some (n0\<lparr>getPrevSiblingKey := Some c\<rparr>)
         else if k = p then Some (parent\<lparr>getChildKeys := c # c0 # rest\<rparr>)
         else OMap_get m k))"
    using updateParentChild_result[OF p c, of 0 undefined n0] n0 by (simp add: Cons cong: if_cong)
  then obtain m' where m': "updateParentChild m p c 0 = Inr m'" "OMap_keys m' = OMap_keys m"
    "\<And>k. OMap_get m' k =
        (if k = c then
           Some (child\<lparr>getParentKey := Some p, getPrevSiblingKey := None, getNextSiblingKey := Some c0\<rparr>)
         else if k = c0 then Some (n0\<lparr>getPrevSiblingKey := Some c\<rparr>)
         else if k = p then Some (parent\<lparr>getChildKeys := c # c0 # rest\<rparr>)
         else OMap_get m k)"
    by blast
  show ?thesis
    by (rule exI[of _ m']) (simp add: m' Cons n0)
qed

lemma updateAsSiblingsChild_next_core:
  assumes om: "ordered_map blockMap" and kc: "keys_consistent blockMap"
    and K: "OMap_get blockMap key = Some block"
    and nx: "getNextSiblingKey block = Some S"
    and S: "OMap_get blockMap S = Some newParent"
    and emp: "getText newParent = []"
    and KS: "key \<noteq> S"
    and first: "case getChildKeys newParent of [] \<Rightarrow> True
                | c0 # rest \<Rightarrow> OMap_get blockMap c0 \<noteq> None \<and> c0 \<noteq> S \<and> getParentKey block \<noteq> Some c0"
    and prev: "case getPrevSiblingKey block of None \<Rightarrow> True
               | Some pv \<Rightarrow> OMap_get blockMap pv \<noteq> None \<and> getParentKey block \<noteq> Some pv"
    and par: "case getParentKey block of None \<Rightarrow> True
              | Some P \<Rightarrow> precedes blockMap P key \<and> P \<noteq> S \<and>
                  (case OMap_get blockMap P of None \<Rightarrow> False
                   | Some pn \<Rightarrow> key \<in> set (getChildKeys pn))"
  shows "\<exists>r. updateAsSiblingsChild dev isValidTree blockMap key SiblingNext =
             (if dev \<and> \<not> (isValidTree blockMap \<and> isValidTree r)
              then Inl (InvariantViolation ''The tree is not valid'') else Inr r) \<and>
          precedes r S key \<and>
          (\<exists>b'. OMap_get r key = Some b' \<and> getParentKey b' = Some S) \<and>
          (\<exists>s'. OMap_get r S = Some s' \<and> getChildKeys s' = key # getChildKeys newParent) \<and>
          (case getParentKey block of None \<Rightarrow> True
           | Some P \<Rightarrow>
               (\<exists>pn pn'. OMap_get blockMap P = Some pn \<and> OMap_get r P = Some pn' \<and>
                   getChildKeys pn' = remove1 key (getChildKeys pn) \<and>
                   getPrevSiblingKey pn' = getPrevSiblingKey pn \<and>
                   getNextSiblingKey pn' = getNextSiblingKey pn))"
proof -
  define cs where "cs = getChildKeys newParent"
  define isC0 where "isC0 k = (case cs of [] \<Rightarrow> False | c0 # rest \<Rightarrow> k = c0)" for k
  have first': "\<not> isC0 S" "\<And>k. isC0 k \<Longrightarrow> OMap_get blockMap k \<noteq> None"
    "\<And>k. isC0 k \<Longrightarrow> getParentKey block \<noteq> Some k"
    using first by (auto simp: isC0_def cs_def split: list.splits)
  \<comment> \<open>step 1: the key becomes the first child of the new parent\<close>
  have nn: "case getChildKeys newParent of [] \<Rightarrow> True | c0 # rest \<Rightarrow> OMap_get blockMap c0 \<noteq> None"
    using first by (auto split: list.splits)
  from updateParentChild_first_result[OF S K nn]
  obtain m1 where m1: "updateParentChild blockMap S key 0 = Inr m1"
    and keys1: "OMap_keys m1 = OMap_keys blockMap"
    and get1: "\<And>k. OMap_get m1 k =
        (if k = key then
           Some (block\<lparr>getParentKey := Some S, getPrevSiblingKey := None,
                   getNextSiblingKey := (case cs of [] \<Rightarrow> None | c0 # rest \<Rightarrow> Some c0)\<rparr>)
         else if isC0 k then Some ((the (OMap_get blockMap k))\<lparr>getPrevSiblingKey := Some key\<rparr>)
         else if k = S then Some (newParent\<lparr>getChildKeys := key # cs\<rparr>)
         else OMap_get blockMap k)"
    unfolding cs_def isC0_def by blast
  have S1: "OMap_get m1 S = Some (newParent\<lparr>getChildKeys := key # cs\<rparr>)"
    using KS first'(1) by (simp add: get1)
  \<comment> \<open>step 2: the new parent takes over the previous sibling of the key\<close>
  have "\<exists>m2. (case getPrevSiblingKey block of
               Some prevSibling \<Rightarrow> updateSibling m1 prevSibling S
             | None \<Rightarrow> clearSibling m1 S (\<lambda>np. np\<lparr>getPrevSiblingKey := None\<rparr>)) = Inr m2 \<and>
          OMap_keys m2 = OMap_keys m1 \<and>
          (\<exists>s2. OMap_get m2 S = Some s2 \<and> getChildKeys s2 = key # cs) \<and>
          (\<exists>b2. OMap_get m2 key = Some b2 \<and> getParentKey b2 = Some S) \<and>
          (\<forall>k. k \<noteq> S \<and> getPrevSiblingKey block \<noteq> Some k \<longrightarrow> OMap_get m2 k = OMap_get m1 k) \<and>
          (\<forall>k v. OMap_get m2 k = Some v \<longrightarrow> (\<exists>v1. OMap_get m1 k = Some v1 \<and> getKey v = getKey v1))"
  proof (cases "getPrevSiblingKey block")
    case None
    show ?thesis
      using clearSibling_result[OF S1, of "\<lambda>np. np\<lparr>getPrevSiblingKey := None\<rparr>"] KS
      by (simp add: None OMap_get_set S1 get1 first'(1))
  next
    case (Some pv)
    with prev have "OMap_get blockMap pv \<noteq> None" by simp
    then have "pv \<in> set (OMap_keys m1)" by (simp add: keys1 OMap_get_None_iff)
    then obtain pv1 where pv1: "OMap_get m1 pv = Some pv1"
      using OMap_get_None_iff[of m1 pv] by auto
    from updateSibling_result[OF pv1 S1] obtain m2 where
      m2: "updateSibling m1 pv S = Inr m2" "OMap_keys m2 = OMap_keys m1"
        "\<And>k. OMap_get m2 k =
          (if k = S then Some (newParent\<lparr>getChildKeys := key # cs, getPrevSiblingKey := Some pv\<rparr>)
           else if k = pv then Some (pv1\<lparr>getNextSiblingKey := Some S\<rparr>)
           else OMap_get m1 k)"
      by auto
    have keyparent: "\<exists>b2. OMap_get m2 key = Some b2 \<and> getParentKey b2 = Some S"
      using KS pv1 by (cases "key = pv") (auto simp: m2(3) get1)
    show ?thesis
      apply (rule exI[of _ m2])
      using keyparent pv1 S1 by (auto simp: Some m2)
  qed
  then obtain m2 where step2: "(case getPrevSiblingKey block of
               Some prevSibling \<Rightarrow> updateSibling m1 prevSibling S
             | None \<Rightarrow> clearSibling m1 S (\<lambda>np. np\<lparr>getPrevSiblingKey := None\<rparr>)) = Inr m2"
    and keys2: "OMap_keys m2 = OMap_keys m1"
    and S2: "\<exists>s2. OMap_get m2 S = Some s2 \<and> getChildKeys s2 = key # cs"
    and K2: "\<exists>b2. OMap_get m2 key = Some b2 \<and> getParentKey b2 = Some S"
    and frame2: "\<And>k. k \<noteq> S \<Longrightarrow> getPrevSiblingKey block \<noteq> Some k \<Longrightarrow> OMap_get m2 k = OMap_get m1 k"
    and same2: "\<And>k v. OMap_get m2 k = Some v \<Longrightarrow> \<exists>v1. OMap_get m1 k = Some v1 \<and> getKey v = getKey v1"
    by blast
  have om2: "ordered_map m2" using om keys1 keys2 by (simp add: ordered_map_def)
  have kc2: "keys_consistent m2"
  proof (rule keys_consistent_intro[OF om2])
    fix k v assume "OMap_get m2 k = Some v"
    from same2[OF this] obtain v1 where v1: "OMap_get m1 k = Some v1" "getKey v = getKey v1" by blast
    have "getKey v1 = k"
      using v1(1) keys_consistent_get[OF kc K] keys_consistent_get[OF kc S]
        keys_consistent_get[OF kc, of k] first'(2)[of k]
      by (auto simp: get1 split: if_splits)
    with v1 show "getKey v = k" by simp
  qed
  \<comment> \<open>step 3: the new parent is moved in front of the key\<close>
  from S2 K2 obtain s2 b2 where s2: "OMap_get m2 S = Some s2" "getChildKeys s2 = key # cs"
    and b2: "OMap_get m2 key = Some b2" "getParentKey b2 = Some S" by blast
  from flipOrder_result[OF om2 kc2 s2(1) b2(1) KS]
  obtain r3 where r3: "flipOrder m2 key S = Inr r3" and om3: "ordered_map r3"
    and prec3: "precedes r3 S key"
    and sub3: "\<And>k v. OMap_get r3 k = Some v \<Longrightarrow> OMap_get m2 k = Some v"
    and keys3: "set (OMap_keys r3) = set (takeWhile (\<lambda>k. k \<noteq> key) (OMap_keys m2)) \<union> {S, key} \<union>
        set (drop 1 (dropWhile (\<lambda>k. k \<noteq> S) (OMap_keys m2)))"
    by blast
  have get3: "OMap_get r3 k = OMap_get m2 k" if "k \<in> set (OMap_keys r3)" for k
  proof -
    from that obtain v where "OMap_get r3 k = Some v" using OMap_get_None_iff[of r3 k] by auto
    with sub3[OF this] show ?thesis by simp
  qed
  have S3: "OMap_get r3 S = Some s2" and K3: "OMap_get r3 key = Some b2"
    using get3[of S] get3[of key] keys3 s2 b2 by auto
  \<comment> \<open>step 4: the key leaves the children of its old parent\<close>
  show ?thesis
  proof (cases "getParentKey block")
    case None
    have "updateAsSiblingsChild dev isValidTree blockMap key SiblingNext =
             (if dev \<and> \<not> (isValidTree blockMap \<and> isValidTree r3)
              then Inl (InvariantViolation ''The tree is not valid'') else Inr r3)"
      using K nx S emp m1 step2 r3
      by (simp add: updateAsSiblingsChild_def verifyTree_def err_bind_def removeFromParent_def None)
    then show ?thesis
      apply (intro exI[of _ r3])
      using prec3 S3 K3 s2 b2 by (simp add: None cs_def)
  next
    case (Some P)
    with par obtain pn where P: "precedes blockMap P key" "P \<noteq> S" "OMap_get blockMap P = Some pn"
      "key \<in> set (getChildKeys pn)"
      by (auto split: option.splits)
    have PK: "P \<noteq> key" using P(1) by (auto simp: precedes_def dest: set_takeWhileD)
    have Pprev: "getPrevSiblingKey block \<noteq> Some P" using prev Some by (auto split: option.splits)
    have PC0: "\<not> isC0 P" using first'(3)[of P] Some by auto
    have P2: "OMap_get m2 P = Some pn"
      using frame2[OF P(2) Pprev] PK PC0 P(2,3) by (simp add: get1)
    have "P \<in> set (OMap_keys r3)"
      using P(1) by (simp add: keys3 keys2 keys1 precedes_def)
    then have P3: "OMap_get r3 P = Some pn" using get3[of P] P2 by simp
    define r4 where "r4 = OMap_set r3 P (pn\<lparr>getChildKeys := remove1 key (getChildKeys pn)\<rparr>)"
    from removeFromParent_result[OF P3 P(4)]
    have r4: "removeFromParent r3 key (Some P) = Inr r4" and keys4: "OMap_keys r4 = OMap_keys r3"
      by (simp_all add: r4_def)
    have "updateAsSiblingsChild dev isValidTree blockMap key SiblingNext =
             (if dev \<and> \<not> (isValidTree blockMap \<and> isValidTree r4)
              then Inl (InvariantViolation ''The tree is not valid'') else Inr r4)"
      using K nx S emp m1 step2 r3 r4
      by (simp add: updateAsSiblingsChild_def verifyTree_def err_bind_def Some)
    moreover have "precedes r4 S key" using prec3 precedes_keys_eq[OF keys4] by simp
    moreover have "OMap_get r4 key = Some b2" "OMap_get r4 S = Some s2"
      "OMap_get r4 P = Some (pn\<lparr>getChildKeys := remove1 key (getChildKeys pn)\<rparr>)"
      using PK P(2) K3 S3 by (simp_all add: r4_def OMap_get_set)
    ultimately show ?thesis
      apply (intro exI[of _ r4])
      using s2 b2 P(3) by (simp add: Some cs_def)
  qed
qed

section \<open>Symmetry of the links\<close>

lemma distinct_map_takeWhile: "distinct (map f xs) \<Longrightarrow> distinct (map f (takeWhile P xs))"
  by (induction xs) (auto dest: set_takeWhileD)

lemma OMap_keys_set_set: "set (OMap_keys (OMap_set m k v)) = insert k (set (OMap_keys m))"
  by (auto simp: OMap_keys_set)

lemma OMap_insert_before:
  fixes p :: "ContentBlockNode \<Rightarrow> bool" and np :: ContentBlockNode and N :: string and m :: BlockMap
  assumes om: "ordered_map m" and fresh: "N \<notin> set (OMap_keys m)"
  defines "m0 \<equiv> OMap_concat (OMap_concat (OMap_takeUntil p m) (OrderedMap [(N, np)])) (OMap_skipUntil p m)"
  shows "OMap_get m0 k = (if k = N then Some np else OMap_get m k)"
    and "set (OMap_keys m0) = insert N (set (OMap_keys m))"
    and "ordered_map m0"
proof -
  let ?f = "\<lambda>acc (k, v). OMap_set acc k v"
  let ?P = "\<lambda>(k, v). \<not> p v"
  have m0: "m0 = foldl ?f (OMap_set (takeWhile ?P m) N np) (dropWhile ?P m)"
    by (simp add: m0_def OMap_concat_def OrderedMap_def OMap_takeUntil_def OMap_skipUntil_def)
  have om_t: "ordered_map (takeWhile ?P m)"
    using om unfolding ordered_map_def OMap_keys_def by (rule distinct_map_takeWhile)
  show "ordered_map m0" unfolding m0 by (intro ordered_map_foldl_set ordered_map_set om_t)
  have "set (OMap_keys m0) = set (OMap_keys (OMap_set (takeWhile ?P m) N np)) \<union> fst ` set (dropWhile ?P m)"
    unfolding m0 by (rule OMap_keys_foldl_set_set)
  also have "\<dots> = insert N (fst ` set (takeWhile ?P m) \<union> fst ` set (dropWhile ?P m))"
    unfolding OMap_keys_set_set by (simp add: OMap_keys_def)
  also have "fst ` set (takeWhile ?P m) \<union> fst ` set (dropWhile ?P m) = fst ` set (takeWhile ?P m @ dropWhile ?P m)"
    by (simp only: set_append image_Un)
  finally show "set (OMap_keys m0) = insert N (set (OMap_keys m))" by (simp add: OMap_keys_def)
  have sub: "OMap_get m0 k = Some v \<Longrightarrow> (if k = N then Some np else OMap_get m k) = Some v" for v
    unfolding m0
  proof (rule OMap_get_foldl_set_sub[where g = "\<lambda>k. if k = N then Some np else OMap_get m k"
        and xs = "dropWhile ?P m" and m = "OMap_set (takeWhile ?P m) N np"])
    fix k v assume "(k, v) \<in> set (dropWhile ?P m)"
    then have "(k, v) \<in> set m" by (rule set_dropWhileD)
    then show "(if k = N then Some np else OMap_get m k) = Some v"
      using OMap_get_in[OF om] fresh by (auto simp: OMap_keys_def rev_image_eqI)
  next
    fix k v assume "OMap_get (OMap_set (takeWhile ?P m) N np) k = Some v"
    then show "(if k = N then Some np else OMap_get m k) = Some v"
      using OMap_get_in[OF om] OMap_get_Some_in[of "takeWhile ?P m" k v]
      by (auto simp: OMap_get_set split: if_splits dest: set_takeWhileD)
  qed
  show "OMap_get m0 k = (if k = N then Some np else OMap_get m k)"
  proof (cases "OMap_get m0 k")
    case None
    then have "k \<notin> insert N (set (OMap_keys m))"
      using \<open>set (OMap_keys m0) = insert N (set (OMap_keys m))\<close> OMap_get_None_iff by blast
    then show ?thesis using None OMap_get_None_iff[of m k] by auto
  next
    case (Some v)
    with sub[OF Some] show ?thesis by simp
  qed
qed

lemma case_option_resolves:
  "(case OMap_get m k of None \<Rightarrow> False | Some b \<Rightarrow> P b) \<longleftrightarrow> (\<exists>b. OMap_get m k = Some b \<and> P b)"
  by (cases "OMap_get m k") auto

lemma case_option_all: "(case x of None \<Rightarrow> True | Some y \<Rightarrow> Q y) \<longleftrightarrow> (\<forall>y. x = Some y \<longrightarrow> Q y)"
  by (cases x) auto

lemma symmetric_iff:
  assumes "ordered_map m"
  shows "symmetric m \<longleftrightarrow>
    (\<forall>k b. OMap_get m k = Some b \<longrightarrow>
       (\<forall>nx. getNextSiblingKey b = Some nx \<longrightarrow> (\<exists>nb. OMap_get m nx = Some nb \<and> getPrevSiblingKey nb = Some k)) \<and>
       (\<forall>pv. getPrevSiblingKey b = Some pv \<longrightarrow> (\<exists>pb. OMap_get m pv = Some pb \<and> getNextSiblingKey pb = Some k)) \<and>
       (\<forall>c \<in> set (getChildKeys b). \<exists>cb. OMap_get m c = Some cb \<and> getParentKey cb = Some k))"
proof -
  have in_iff: "OMap_get m k = Some b \<longleftrightarrow> (k, b) \<in> set m" for k b
    using OMap_get_in[OF assms] OMap_get_Some_in by blast
  show ?thesis
    unfolding symmetric_def case_option_resolves case_option_all
    by (simp only: in_iff) fast
qed

subsection \<open>createNewParent, field by field\<close>

lemma createNewParent_fields:
  assumes om: "ordered_map m" and fresh: "N \<notin> set (OMap_keys m)"
    and K: "OMap_get m K = Some block"
    and pvx: "\<And>a. getPrevSiblingKey block = Some a \<Longrightarrow> OMap_get m a \<noteq> None"
    and nxx: "\<And>a. getNextSiblingKey block = Some a \<Longrightarrow> OMap_get m a \<noteq> None"
    and pax: "\<And>a. getParentKey block = Some a \<Longrightarrow> OMap_get m a \<noteq> None"
  shows "\<exists>r. createNewParent dev isValidTree N m K =
            (if dev \<and> \<not> (isValidTree m \<and> isValidTree r)
             then Inl (InvariantViolation ''The tree is not valid'') else Inr r) \<and>
        ordered_map r \<and> set (OMap_keys r) = insert N (set (OMap_keys m)) \<and>
        OMap_get r N = Some \<lparr>getKey = N, getText = [], getDepth = getDepth block,
            getType = getType block, getParentKey = getParentKey block,
            getPrevSiblingKey = getPrevSiblingKey block, getNextSiblingKey = getNextSiblingKey block,
            getChildKeys = [K]\<rparr> \<and>
        (\<forall>k. k \<noteq> N \<longrightarrow> OMap_get r k = map_option (\<lambda>b. b
            \<lparr>getParentKey := (if k = K then Some N else getParentKey b),
             getPrevSiblingKey := (if getNextSiblingKey block = Some k then Some N
                                   else if k = K then None else getPrevSiblingKey b),
             getNextSiblingKey := (if getPrevSiblingKey block = Some k then Some N
                                   else if k = K then None else getNextSiblingKey b),
             getChildKeys := (if getParentKey block = Some k
                              then List_set (getChildKeys b) (List_indexOf (getChildKeys b) K) N
                              else getChildKeys b)\<rparr>) (OMap_get m k))"
proof -
  define np where "np = \<lparr>getKey = N, getText = [], getDepth = getDepth block,
            getType = getType block, getParentKey = None, getPrevSiblingKey = None,
            getNextSiblingKey = None, getChildKeys = []\<rparr>"
  define m0 where "m0 = OMap_concat (OMap_concat (OMap_takeUntil (\<lambda>b. getKey b = K) m)
                 (OrderedMap [(N, np)])) (OMap_skipUntil (\<lambda>b. getKey b = K) m)"
  have NK: "N \<noteq> K" using fresh OMap_get_Some_keys[OF K] by auto
  have get0: "OMap_get m0 k = (if k = N then Some np else OMap_get m k)" for k
    unfolding m0_def by (rule OMap_insert_before[OF om fresh])
  have keys0: "set (OMap_keys m0) = insert N (set (OMap_keys m))" and om0: "ordered_map m0"
    unfolding m0_def by (rule OMap_insert_before[OF om fresh])+
  have Nm: "OMap_get m N = None" using fresh by (simp add: OMap_get_None_iff)
  \<comment> \<open>step 1\<close>
  have N0: "OMap_get m0 N = Some np" and K0: "OMap_get m0 K = Some block"
    using NK K by (simp_all add: get0)
  have "case getChildKeys np of [] \<Rightarrow> True | c0 # rest \<Rightarrow> OMap_get m0 c0 \<noteq> None"
    by (simp add: np_def)
  note raw1 = updateParentChild_first_result[OF N0 K0 this]
  have cnp: "getChildKeys np = []" by (simp add: np_def)
  have "\<exists>m1. updateParentChild m0 N K 0 = Inr m1 \<and> OMap_keys m1 = OMap_keys m0 \<and>
      (\<forall>k. OMap_get m1 k =
        (if k = K then Some (block\<lparr>getParentKey := Some N, getPrevSiblingKey := None, getNextSiblingKey := None\<rparr>)
         else if k = N then Some (np\<lparr>getChildKeys := [K]\<rparr>)
         else OMap_get m0 k))"
    using raw1 by (simp add: cnp cong: if_cong)
  then obtain m1 where m1: "updateParentChild m0 N K 0 = Inr m1" and keys1: "OMap_keys m1 = OMap_keys m0"
    and raw1': "\<And>k. OMap_get m1 k =
        (if k = K then Some (block\<lparr>getParentKey := Some N, getPrevSiblingKey := None, getNextSiblingKey := None\<rparr>)
         else if k = N then Some (np\<lparr>getChildKeys := [K]\<rparr>)
         else OMap_get m0 k)"
    by blast
  have get1N: "OMap_get m1 N = Some (np\<lparr>getChildKeys := [K]\<rparr>)"
    using NK by (simp add: raw1')
  have get1: "OMap_get m1 k = map_option (\<lambda>b. if k = K then
          b\<lparr>getParentKey := Some N, getPrevSiblingKey := None, getNextSiblingKey := None\<rparr> else b) (OMap_get m k)"
    if "k \<noteq> N" for k
    using that K by (cases "OMap_get m k") (auto simp: raw1' get0)
  \<comment> \<open>step 2\<close>
  have "\<exists>m2. (case getPrevSiblingKey block of None \<Rightarrow> Inr m1
               | Some prevSibling \<Rightarrow> updateSibling m1 prevSibling N) = Inr m2 \<and>
          OMap_keys m2 = OMap_keys m1 \<and>
          OMap_get m2 N = Some (np\<lparr>getChildKeys := [K], getPrevSiblingKey := getPrevSiblingKey block\<rparr>) \<and>
          (\<forall>k. k \<noteq> N \<longrightarrow> OMap_get m2 k = map_option (\<lambda>b. if getPrevSiblingKey block = Some k
              then b\<lparr>getNextSiblingKey := Some N\<rparr> else b) (OMap_get m1 k))"
  proof (cases "getPrevSiblingKey block")
    case None
    then show ?thesis using get1N by (simp add: np_def option.map_ident)
  next
    case (Some a)
    have aN: "a \<noteq> N" using pvx[OF Some] Nm by auto
    from pvx[OF Some] obtain a1 where a1: "OMap_get m1 a = Some a1"
      using get1[OF aN] by (cases "OMap_get m a") auto
    from updateSibling_result[OF a1 get1N] obtain m2 where
      "updateSibling m1 a N = Inr m2" "OMap_keys m2 = OMap_keys m1"
      "\<And>k. OMap_get m2 k = (if k = N then Some (np\<lparr>getChildKeys := [K], getPrevSiblingKey := Some a\<rparr>)
           else if k = a then Some (a1\<lparr>getNextSiblingKey := Some N\<rparr>) else OMap_get m1 k)"
      by auto
    then show ?thesis
      apply (intro exI[of _ m2])
      using a1 by (auto simp: Some option.map_ident)
  qed
  then obtain m2 where m2: "(case getPrevSiblingKey block of None \<Rightarrow> Inr m1
               | Some prevSibling \<Rightarrow> updateSibling m1 prevSibling N) = Inr m2"
    and keys2: "OMap_keys m2 = OMap_keys m1"
    and get2N: "OMap_get m2 N = Some (np\<lparr>getChildKeys := [K], getPrevSiblingKey := getPrevSiblingKey block\<rparr>)"
    and get2: "\<And>k. k \<noteq> N \<Longrightarrow> OMap_get m2 k = map_option (\<lambda>b. if getPrevSiblingKey block = Some k
              then b\<lparr>getNextSiblingKey := Some N\<rparr> else b) (OMap_get m1 k)"
    by blast
  \<comment> \<open>step 3\<close>
  have "\<exists>m3. (case getNextSiblingKey block of None \<Rightarrow> Inr m2
               | Some nextSibling \<Rightarrow> updateSibling m2 N nextSibling) = Inr m3 \<and>
          OMap_keys m3 = OMap_keys m2 \<and>
          OMap_get m3 N = Some (np\<lparr>getChildKeys := [K], getPrevSiblingKey := getPrevSiblingKey block,
                                   getNextSiblingKey := getNextSiblingKey block\<rparr>) \<and>
          (\<forall>k. k \<noteq> N \<longrightarrow> OMap_get m3 k = map_option (\<lambda>b. if getNextSiblingKey block = Some k
              then b\<lparr>getPrevSiblingKey := Some N\<rparr> else b) (OMap_get m2 k))"
  proof (cases "getNextSiblingKey block")
    case None
    then show ?thesis using get2N by (simp add: np_def option.map_ident)
  next
    case (Some a)
    have aN: "a \<noteq> N" using nxx[OF Some] Nm by auto
    from nxx[OF Some] obtain a2 where a2: "OMap_get m2 a = Some a2"
      using get2[OF aN] get1[OF aN] by (cases "OMap_get m a") auto
    from updateSibling_result[OF get2N a2] obtain m3 where
      "updateSibling m2 N a = Inr m3" "OMap_keys m3 = OMap_keys m2"
      "\<And>k. OMap_get m3 k = (if k = a then Some (a2\<lparr>getPrevSiblingKey := Some N\<rparr>)
           else if k = N then Some (np\<lparr>getChildKeys := [K], getPrevSiblingKey := getPrevSiblingKey block,
                                   getNextSiblingKey := Some a\<rparr>) else OMap_get m2 k)"
      by auto
    then show ?thesis
      apply (intro exI[of _ m3])
      using a2 aN by (auto simp: Some option.map_ident)
  qed
  then obtain m3 where m3: "(case getNextSiblingKey block of None \<Rightarrow> Inr m2
               | Some nextSibling \<Rightarrow> updateSibling m2 N nextSibling) = Inr m3"
    and keys3: "OMap_keys m3 = OMap_keys m2"
    and get3N: "OMap_get m3 N = Some (np\<lparr>getChildKeys := [K], getPrevSiblingKey := getPrevSiblingKey block,
                                   getNextSiblingKey := getNextSiblingKey block\<rparr>)"
    and get3: "\<And>k. k \<noteq> N \<Longrightarrow> OMap_get m3 k = map_option (\<lambda>b. if getNextSiblingKey block = Some k
              then b\<lparr>getPrevSiblingKey := Some N\<rparr> else b) (OMap_get m2 k)"
    by blast
  \<comment> \<open>step 4\<close>
  have "\<exists>m4. (case getParentKey block of None \<Rightarrow> Inr m3
               | Some parent \<Rightarrow> replaceParentChild m3 parent K N) = Inr m4 \<and>
          OMap_keys m4 = OMap_keys m3 \<and>
          OMap_get m4 N = Some (np\<lparr>getChildKeys := [K], getPrevSiblingKey := getPrevSiblingKey block,
                                   getNextSiblingKey := getNextSiblingKey block,
                                   getParentKey := getParentKey block\<rparr>) \<and>
          (\<forall>k. k \<noteq> N \<longrightarrow> OMap_get m4 k = map_option (\<lambda>b. if getParentKey block = Some k
              then b\<lparr>getChildKeys := List_set (getChildKeys b) (List_indexOf (getChildKeys b) K) N\<rparr>
              else b) (OMap_get m3 k))"
  proof (cases "getParentKey block")
    case None
    then show ?thesis using get3N by (simp add: np_def option.map_ident)
  next
    case (Some a)
    have aN: "a \<noteq> N" using pax[OF Some] Nm by auto
    from pax[OF Some] obtain a3 where a3: "OMap_get m3 a = Some a3"
      using get3[OF aN] get2[OF aN] get1[OF aN] by (cases "OMap_get m a") auto
    from replaceParentChild_result[OF a3 get3N, of K] obtain m4 where
      "replaceParentChild m3 a K N = Inr m4" "OMap_keys m4 = OMap_keys m3"
      "\<And>k. OMap_get m4 k = (if k = N then Some (np\<lparr>getChildKeys := [K], getPrevSiblingKey := getPrevSiblingKey block,
                                   getNextSiblingKey := getNextSiblingKey block, getParentKey := Some a\<rparr>)
           else if k = a then Some (a3\<lparr>getChildKeys := List_set (getChildKeys a3) (List_indexOf (getChildKeys a3) K) N\<rparr>)
           else OMap_get m3 k)"
      by auto
    then show ?thesis
      apply (intro exI[of _ m4])
      using a3 aN by (auto simp: Some option.map_ident)
  qed
  then obtain m4 where m4: "(case getParentKey block of None \<Rightarrow> Inr m3
               | Some parent \<Rightarrow> replaceParentChild m3 parent K N) = Inr m4"
    and keys4: "OMap_keys m4 = OMap_keys m3"
    and get4N: "OMap_get m4 N = Some (np\<lparr>getChildKeys := [K], getPrevSiblingKey := getPrevSiblingKey block,
                                   getNextSiblingKey := getNextSiblingKey block,
                                   getParentKey := getParentKey block\<rparr>)"
    and get4: "\<And>k. k \<noteq> N \<Longrightarrow> OMap_get m4 k = map_option (\<lambda>b. if getParentKey block = Some k
              then b\<lparr>getChildKeys := List_set (getChildKeys b) (List_indexOf (getChildKeys b) K) N\<rparr>
              else b) (OMap_get m3 k)"
    by blast
  have run: "createNewParent dev isValidTree N m K =
            (if dev \<and> \<not> (isValidTree m \<and> isValidTree m4)
             then Inl (InvariantViolation ''The tree is not valid'') else Inr m4)"
  proof -
    have knp: "getKey np = N" by (simp add: np_def)
    have "createNewParent dev isValidTree N m K =
      err_bind (verifyTree dev isValidTree m) (\<lambda>_.
      err_bind (updateParentChild m0 N K 0) (\<lambda>newBlockMap1.
      err_bind
        (case getPrevSiblingKey block of
           None \<Rightarrow> Inr newBlockMap1
         | Some prevSibling \<Rightarrow> updateSibling newBlockMap1 prevSibling N)
        (\<lambda>newBlockMap2.
      err_bind
        (case getNextSiblingKey block of
           None \<Rightarrow> Inr newBlockMap2
         | Some nextSibling \<Rightarrow> updateSibling newBlockMap2 N nextSibling)
        (\<lambda>newBlockMap3.
      err_bind
        (case getParentKey block of
           None \<Rightarrow> Inr newBlockMap3
         | Some parent \<Rightarrow> replaceParentChild newBlockMap3 parent K N)
        (\<lambda>newBlockMap4.
      err_bind (verifyTree dev isValidTree newBlockMap4) (\<lambda>_. Inr newBlockMap4))))))"
      unfolding createNewParent_def m0_def np_def using K
      by (simp add: Let_def cong: option.case_cong)
    then show ?thesis
      using m1 m2 m3 m4 by (simp add: verifyTree_def err_bind_def)
  qed
  have om4: "ordered_map m4" using om0 keys1 keys2 keys3 keys4 by (simp add: ordered_map_def)
  have keys: "set (OMap_keys m4) = insert N (set (OMap_keys m))"
    using keys0 keys1 keys2 keys3 keys4 by simp
  have fields: "OMap_get m4 k = map_option (\<lambda>b. b
            \<lparr>getParentKey := (if k = K then Some N else getParentKey b),
             getPrevSiblingKey := (if getNextSiblingKey block = Some k then Some N
                                   else if k = K then None else getPrevSiblingKey b),
             getNextSiblingKey := (if getPrevSiblingKey block = Some k then Some N
                                   else if k = K then None else getNextSiblingKey b),
             getChildKeys := (if getParentKey block = Some k
                              then List_set (getChildKeys b) (List_indexOf (getChildKeys b) K) N
                              else getChildKeys b)\<rparr>) (OMap_get m k)" if "k \<noteq> N" for k
    by (cases "OMap_get m k") (simp_all add: get4[OF that] get3[OF that] get2[OF that] get1[OF that])
  show ?thesis
    apply (intro exI[of _ m4])
    using run om4 keys get4N fields by (simp add: np_def)
qed

lemma set_List_set_indexOf:
  assumes "distinct cs"
  shows "set (List_set cs (List_indexOf cs K) N) \<subseteq> insert N (set cs - {K})"
proof (cases "K \<in> set cs")
  case True
  from List_indexOf_in[OF True] obtain j where
    j: "j < length cs" "List_indexOf cs K = int j" "cs ! j = K" by blast
  have "set (cs[j := N]) \<subseteq> insert N (set cs - {K})"
  proof
    fix x assume "x \<in> set (cs[j := N])"
    then obtain i where i: "i < length cs" "x = cs[j := N] ! i" by (auto simp: in_set_conv_nth)
    show "x \<in> insert N (set cs - {K})"
    proof (cases "i = j")
      case True
      with i j show ?thesis by simp
    next
      case False
      have xi: "x = cs ! i" using i False by simp
      have "cs ! i \<noteq> K"
        using nth_eq_iff_index_eq[OF assms i(1) j(1)] False j(3) by simp
      with xi i(1) show ?thesis by simp
    qed
  qed
  then show ?thesis using j by (simp add: List_set_in_range)
next
  case False
  show ?thesis
  proof (cases "cs = []")
    case True
    then show ?thesis by (simp add: List_indexOf_notin List_set_def wrapIndex_def)
  next
    case ne: False
    have "set (butlast cs) \<subseteq> set cs" by (meson in_set_butlastD subsetI)
    with False ne show ?thesis by (auto simp: List_indexOf_notin List_set_last)
  qed
qed

lemma createNewParent_symmetric:
  assumes om: "ordered_map m" and sym: "symmetric m" and fresh: "N \<notin> set (OMap_keys m)"
    and K: "OMap_get m K = Some block"
    and par: "case getParentKey block of None \<Rightarrow> True
              | Some P \<Rightarrow> (case OMap_get m P of None \<Rightarrow> False | Some pn \<Rightarrow> distinct (getChildKeys pn))"
  shows "\<exists>r. createNewParent dev isValidTree N m K =
            (if dev \<and> \<not> (isValidTree m \<and> isValidTree r)
             then Inl (InvariantViolation ''The tree is not valid'') else Inr r) \<and>
        ordered_map r \<and> symmetric r"
proof -
  note s = sym[unfolded symmetric_iff[OF om], rule_format]
  have symN: "\<exists>nb. OMap_get m nx = Some nb \<and> getPrevSiblingKey nb = Some k"
    if "OMap_get m k = Some b" "getNextSiblingKey b = Some nx" for k b nx
    using s[OF that(1)] that(2) by blast
  have symP: "\<exists>pb. OMap_get m pv = Some pb \<and> getNextSiblingKey pb = Some k"
    if "OMap_get m k = Some b" "getPrevSiblingKey b = Some pv" for k b pv
    using s[OF that(1)] that(2) by blast
  have symC: "\<exists>cb. OMap_get m c = Some cb \<and> getParentKey cb = Some k"
    if "OMap_get m k = Some b" "c \<in> set (getChildKeys b)" for k b c
    using s[OF that(1)] that(2) by blast
  have pvx: "\<And>a. getPrevSiblingKey block = Some a \<Longrightarrow> OMap_get m a \<noteq> None"
    using symP[OF K] by fastforce
  have nxx: "\<And>a. getNextSiblingKey block = Some a \<Longrightarrow> OMap_get m a \<noteq> None"
    using symN[OF K] by fastforce
  have pax: "\<And>a. getParentKey block = Some a \<Longrightarrow> OMap_get m a \<noteq> None"
    using par by (auto split: option.splits)
  define F :: "string \<Rightarrow> ContentBlockNode \<Rightarrow> ContentBlockNode" where "F k b = b
            \<lparr>getParentKey := (if k = K then Some N else getParentKey b),
             getPrevSiblingKey := (if getNextSiblingKey block = Some k then Some N
                                   else if k = K then None else getPrevSiblingKey b),
             getNextSiblingKey := (if getPrevSiblingKey block = Some k then Some N
                                   else if k = K then None else getNextSiblingKey b),
             getChildKeys := (if getParentKey block = Some k
                              then List_set (getChildKeys b) (List_indexOf (getChildKeys b) K) N
                              else getChildKeys b)\<rparr>" for k b
  define nb :: ContentBlockNode where "nb = \<lparr>getKey = N, getText = [], getDepth = getDepth block,
            getType = getType block, getParentKey = getParentKey block,
            getPrevSiblingKey = getPrevSiblingKey block, getNextSiblingKey = getNextSiblingKey block,
            getChildKeys = [K]\<rparr>"
  from createNewParent_fields[OF om fresh K pvx nxx pax, of dev isValidTree]
  obtain r where run: "createNewParent dev isValidTree N m K =
            (if dev \<and> \<not> (isValidTree m \<and> isValidTree r)
             then Inl (InvariantViolation ''The tree is not valid'') else Inr r)"
    and omr: "ordered_map r"
    and rN: "OMap_get r N = Some nb"
    and rk: "\<And>k. k \<noteq> N \<Longrightarrow> OMap_get r k = map_option (F k) (OMap_get m k)"
    unfolding F_def nb_def by blast
  have Nm: "OMap_get m N = None" using fresh by (simp add: OMap_get_None_iff)
  have neN: "k \<noteq> N" if "OMap_get m k = Some b" for k b using that Nm by auto
  have rget: "OMap_get r k = Some (F k b)" if "OMap_get m k = Some b" for k b
    using rk[OF neN[OF that]] that by simp
  have Fpar: "getParentKey (F k b) = (if k = K then Some N else getParentKey b)" for k b
    by (simp add: F_def)
  have Fprev: "getPrevSiblingKey (F k b) = (if getNextSiblingKey block = Some k then Some N
                                   else if k = K then None else getPrevSiblingKey b)" for k b
    by (simp add: F_def)
  have Fnext: "getNextSiblingKey (F k b) = (if getPrevSiblingKey block = Some k then Some N
                                   else if k = K then None else getNextSiblingKey b)" for k b
    by (simp add: F_def)
  have Fch: "getChildKeys (F k b) = (if getParentKey block = Some k
                              then List_set (getChildKeys b) (List_indexOf (getChildKeys b) K) N
                              else getChildKeys b)" for k b
    by (simp add: F_def)
  have "symmetric r"
    unfolding symmetric_iff[OF omr]
  proof (intro allI impI conjI ballI)
    fix k b nx assume kb: "OMap_get r k = Some b" and nx: "getNextSiblingKey b = Some nx"
    show "\<exists>nb. OMap_get r nx = Some nb \<and> getPrevSiblingKey nb = Some k"
    proof (cases "k = N")
      case True
      with kb rN have "b = nb" by simp
      with nx have "getNextSiblingKey block = Some nx" by (simp add: nb_def)
      from symN[OF K this] obtain x where x: "OMap_get m nx = Some x" by blast
      show ?thesis using rget[OF x] \<open>getNextSiblingKey block = Some nx\<close> True by (simp add: Fprev)
    next
      case False
      with kb rk obtain b0 where b0: "OMap_get m k = Some b0" "b = F k b0" by auto
      show ?thesis
      proof (cases "getPrevSiblingKey block = Some k")
        case True
        with nx b0 have "nx = N" by (simp add: Fnext)
        with rN True show ?thesis by (simp add: nb_def)
      next
        case notprev: False
        with nx b0 have kK: "k \<noteq> K" and nx0: "getNextSiblingKey b0 = Some nx"
          by (auto simp: Fnext split: if_splits)
        from symN[OF b0(1) nx0] obtain x where x: "OMap_get m nx = Some x" "getPrevSiblingKey x = Some k"
          by blast
        have "getNextSiblingKey block \<noteq> Some nx"
        proof
          assume "getNextSiblingKey block = Some nx"
          from symN[OF K this] x have "k = K" by simp
          with kK show False by simp
        qed
        moreover have "nx \<noteq> K" using x K notprev by auto
        ultimately show ?thesis using rget[OF x(1)] x(2) by (simp add: Fprev)
      qed
    qed
  next
    fix k b pv assume kb: "OMap_get r k = Some b" and pv: "getPrevSiblingKey b = Some pv"
    show "\<exists>pb. OMap_get r pv = Some pb \<and> getNextSiblingKey pb = Some k"
    proof (cases "k = N")
      case True
      with kb rN have "b = nb" by simp
      with pv have "getPrevSiblingKey block = Some pv" by (simp add: nb_def)
      from symP[OF K this] obtain x where x: "OMap_get m pv = Some x" by blast
      show ?thesis using rget[OF x] \<open>getPrevSiblingKey block = Some pv\<close> True by (simp add: Fnext)
    next
      case False
      with kb rk obtain b0 where b0: "OMap_get m k = Some b0" "b = F k b0" by auto
      show ?thesis
      proof (cases "getNextSiblingKey block = Some k")
        case True
        with pv b0 have "pv = N" by (simp add: Fprev)
        with rN True show ?thesis by (simp add: nb_def)
      next
        case notnext: False
        with pv b0 have kK: "k \<noteq> K" and pv0: "getPrevSiblingKey b0 = Some pv"
          by (auto simp: Fprev split: if_splits)
        from symP[OF b0(1) pv0] obtain x where x: "OMap_get m pv = Some x" "getNextSiblingKey x = Some k"
          by blast
        have "getPrevSiblingKey block \<noteq> Some pv"
        proof
          assume "getPrevSiblingKey block = Some pv"
          from symP[OF K this] x have "k = K" by simp
          with kK show False by simp
        qed
        moreover have "pv \<noteq> K" using x K notnext by auto
        ultimately show ?thesis using rget[OF x(1)] x(2) by (simp add: Fnext)
      qed
    qed
  next
    fix k b c assume kb: "OMap_get r k = Some b" and c: "c \<in> set (getChildKeys b)"
    show "\<exists>cb. OMap_get r c = Some cb \<and> getParentKey cb = Some k"
    proof (cases "k = N")
      case True
      with kb rN have "b = nb" by simp
      with c have "c = K" by (simp add: nb_def)
      then show ?thesis using rget[OF K] True by (simp add: Fpar)
    next
      case False
      with kb rk obtain b0 where b0: "OMap_get m k = Some b0" "b = F k b0" by auto
      show ?thesis
      proof (cases "getParentKey block = Some k")
        case True
        with par b0 have "distinct (getChildKeys b0)" by simp
        from set_List_set_indexOf[OF this, of K N] c b0 True
        have "c = N \<or> (c \<in> set (getChildKeys b0) \<and> c \<noteq> K)" by (auto simp: Fch)
        then show ?thesis
        proof
          assume "c = N"
          with rN True show ?thesis by (simp add: nb_def)
        next
          assume cc: "c \<in> set (getChildKeys b0) \<and> c \<noteq> K"
          with symC[OF b0(1)] obtain x where x: "OMap_get m c = Some x" "getParentKey x = Some k" by blast
          show ?thesis using rget[OF x(1)] x(2) cc by (simp add: Fpar)
        qed
      next
        case notpar: False
        with c b0 have "c \<in> set (getChildKeys b0)" by (simp add: Fch)
        with symC[OF b0(1)] obtain x where x: "OMap_get m c = Some x" "getParentKey x = Some k" by blast
        have "c \<noteq> K" using x K notpar by auto
        then show ?thesis using rget[OF x(1)] x(2) by (simp add: Fpar)
      qed
    qed
  qed
  with run omr show ?thesis by blast
qed

subsection \<open>updateAsSiblingsChild, field by field\<close>

lemma updateParentChild_last_result:
  assumes p: "OMap_get m p = Some parent" and c: "OMap_get m c = Some child"
    and cs: "cs = getChildKeys parent"
    and nn: "cs \<noteq> [] \<Longrightarrow> OMap_get m (last cs) \<noteq> None"
  shows "\<exists>m'. updateParentChild m p c (int (length cs)) = Inr m' \<and> OMap_keys m' = OMap_keys m \<and>
      (\<forall>k. OMap_get m' k =
        (if k = c then
           Some (child\<lparr>getParentKey := Some p,
                   getPrevSiblingKey := (if cs = [] then None else Some (last cs)),
                   getNextSiblingKey := None\<rparr>)
         else if cs \<noteq> [] \<and> k = last cs then
           Some ((the (OMap_get m k))\<lparr>getNextSiblingKey := Some c\<rparr>)
         else if k = p then Some (parent\<lparr>getChildKeys := cs @ [c]\<rparr>)
         else OMap_get m k))"
proof (cases "cs = []")
  case True
  have "\<exists>m'. updateParentChild m p c 0 = Inr m' \<and> OMap_keys m' = OMap_keys m \<and>
      (\<forall>k. OMap_get m' k =
        (if k = c then
           Some (child\<lparr>getParentKey := Some p, getPrevSiblingKey := None, getNextSiblingKey := None\<rparr>)
         else if k = p then Some (parent\<lparr>getChildKeys := [c]\<rparr>)
         else OMap_get m k))"
    using updateParentChild_result[OF p c, of 0 undefined undefined] True
    by (simp add: cs[symmetric] cong: if_cong)
  then obtain m' where m': "updateParentChild m p c 0 = Inr m'" "OMap_keys m' = OMap_keys m"
    "\<And>k. OMap_get m' k =
        (if k = c then
           Some (child\<lparr>getParentKey := Some p, getPrevSiblingKey := None, getNextSiblingKey := None\<rparr>)
         else if k = p then Some (parent\<lparr>getChildKeys := [c]\<rparr>)
         else OMap_get m k)"
    by blast
  show ?thesis
    by (rule exI[of _ m']) (simp add: m' True)
next
  case False
  with nn obtain ln where ln: "OMap_get m (last cs) = Some ln" by auto
  have lastnth: "cs ! nat (int (length cs) - 1) = last cs"
    using False by (simp add: last_conv_nth nat_diff_distrib')
  have pos: "0 < int (length cs)" using False by simp
  have "\<exists>m'. updateParentChild m p c (int (length cs)) = Inr m' \<and> OMap_keys m' = OMap_keys m \<and>
      (\<forall>k. OMap_get m' k =
        (if k = c then
           Some (child\<lparr>getParentKey := Some p, getPrevSiblingKey := Some (last cs), getNextSiblingKey := None\<rparr>)
         else if k = last cs then Some (ln\<lparr>getNextSiblingKey := Some c\<rparr>)
         else if k = p then Some (parent\<lparr>getChildKeys := cs @ [c]\<rparr>)
         else OMap_get m k))"
    using updateParentChild_result[OF p c, of "int (length cs)" ln undefined] ln pos
    by (simp add: cs[symmetric] lastnth cong: if_cong)
  then obtain m' where m': "updateParentChild m p c (int (length cs)) = Inr m'" "OMap_keys m' = OMap_keys m"
    "\<And>k. OMap_get m' k =
        (if k = c then
           Some (child\<lparr>getParentKey := Some p, getPrevSiblingKey := Some (last cs), getNextSiblingKey := None\<rparr>)
         else if k = last cs then Some (ln\<lparr>getNextSiblingKey := Some c\<rparr>)
         else if k = p then Some (parent\<lparr>getChildKeys := cs @ [c]\<rparr>)
         else OMap_get m k)"
    by blast
  show ?thesis
    by (rule exI[of _ m']) (simp add: m' False ln)
qed

lemma removeFromParent_any:
  assumes "\<And>P. parentKeyOpt = Some P \<Longrightarrow> OMap_get m P \<noteq> None"
  shows "\<exists>r. removeFromParent m key parentKeyOpt = Inr r \<and> OMap_keys r = OMap_keys m \<and>
     (\<forall>k. OMap_get r k = map_option (\<lambda>b. if parentKeyOpt = Some k
          then b\<lparr>getChildKeys := List_delete (getChildKeys b) (List_indexOf (getChildKeys b) key)\<rparr>
          else b) (OMap_get m k))"
proof (cases parentKeyOpt)
  case None
  then show ?thesis by (simp add: removeFromParent_def option.map_ident)
next
  case (Some P)
  with assms obtain pn where pn: "OMap_get m P = Some pn" by auto
  show ?thesis
    using pn OMap_get_Some_keys[OF pn]
    by (auto simp: Some removeFromParent_def OMap_keys_set OMap_get_set option.map_ident)
qed

lemma adoptPrevious_fields:
  assumes K: "OMap_get m K = Some block" and pv: "getPrevSiblingKey block = Some S"
    and S: "OMap_get m S = Some sp" and emp: "getText sp = []" and KS: "K \<noteq> S"
    and cs: "cs = getChildKeys sp"
    and lastc: "cs \<noteq> [] \<Longrightarrow> OMap_get m (last cs) \<noteq> None \<and> last cs \<noteq> S \<and> last cs \<noteq> K"
    and nxt: "\<And>b. getNextSiblingKey block = Some b \<Longrightarrow> OMap_get m b \<noteq> None \<and> b \<noteq> S"
    and par: "\<And>P. getParentKey block = Some P \<Longrightarrow> OMap_get m P \<noteq> None"
  shows "\<exists>r. updateAsSiblingsChild dev isValidTree m K SiblingPrevious =
            (if dev \<and> \<not> (isValidTree m \<and> isValidTree r)
             then Inl (InvariantViolation ''The tree is not valid'') else Inr r) \<and>
        OMap_keys r = OMap_keys m \<and>
        (\<forall>k. OMap_get m k = None \<longrightarrow> OMap_get r k = None) \<and>
        (\<forall>k b. OMap_get m k = Some b \<longrightarrow> (\<exists>b'. OMap_get r k = Some b' \<and>
             getParentKey b' = (if k = K then Some S else getParentKey b) \<and>
             getPrevSiblingKey b' = (if getNextSiblingKey block = Some k then Some S
                                   else if k = K then (if cs = [] then None else Some (last cs))
                                   else getPrevSiblingKey b) \<and>
             getNextSiblingKey b' = (if k = S then getNextSiblingKey block
                                   else if k = K then None
                                   else if cs \<noteq> [] \<and> k = last cs then Some K
                                   else getNextSiblingKey b) \<and>
             getChildKeys b' = (let base = (if k = S then cs @ [K] else getChildKeys b)
                              in if getParentKey block = Some k
                                 then List_delete base (List_indexOf base K) else base)))"
proof -
  \<comment> \<open>step 1\<close>
  have "cs \<noteq> [] \<Longrightarrow> OMap_get m (last cs) \<noteq> None" using lastc by simp
  from updateParentChild_last_result[OF S K cs this]
  obtain m1 where m1: "updateParentChild m S K (int (length cs)) = Inr m1"
    and keys1: "OMap_keys m1 = OMap_keys m"
    and raw1: "\<And>k. OMap_get m1 k =
        (if k = K then
           Some (block\<lparr>getParentKey := Some S,
                   getPrevSiblingKey := (if cs = [] then None else Some (last cs)),
                   getNextSiblingKey := None\<rparr>)
         else if cs \<noteq> [] \<and> k = last cs then
           Some ((the (OMap_get m k))\<lparr>getNextSiblingKey := Some K\<rparr>)
         else if k = S then Some (sp\<lparr>getChildKeys := cs @ [K]\<rparr>)
         else OMap_get m k)"
    by blast
  have get1: "OMap_get m1 k = map_option (\<lambda>b.
         if k = K then b\<lparr>getParentKey := Some S,
                   getPrevSiblingKey := (if cs = [] then None else Some (last cs)),
                   getNextSiblingKey := None\<rparr>
         else if cs \<noteq> [] \<and> k = last cs then b\<lparr>getNextSiblingKey := Some K\<rparr>
         else if k = S then b\<lparr>getChildKeys := cs @ [K]\<rparr>
         else b) (OMap_get m k)" for k
    using K S lastc by (cases "OMap_get m k") (auto simp: raw1)
  have S1: "OMap_get m1 S = Some (sp\<lparr>getChildKeys := cs @ [K]\<rparr>)"
    using KS lastc by (auto simp: raw1)
  \<comment> \<open>step 2\<close>
  have "\<exists>m2. (case getNextSiblingKey block of
               Some nextSibling \<Rightarrow> updateSibling m1 S nextSibling
             | None \<Rightarrow> clearSibling m1 S (\<lambda>np. np\<lparr>getNextSiblingKey := None\<rparr>)) = Inr m2 \<and>
          OMap_keys m2 = OMap_keys m1 \<and>
          (\<forall>k. OMap_get m2 k = map_option (\<lambda>b.
              if getNextSiblingKey block = Some k then b\<lparr>getPrevSiblingKey := Some S\<rparr>
              else if k = S then b\<lparr>getNextSiblingKey := getNextSiblingKey block\<rparr>
              else b) (OMap_get m1 k))"
  proof (cases "getNextSiblingKey block")
    case None
    show ?thesis
      using clearSibling_result[OF S1, of "\<lambda>np. np\<lparr>getNextSiblingKey := None\<rparr>"]
      by (auto simp: None OMap_get_set S1 option.map_ident)
  next
    case (Some b)
    from nxt[OF Some] have bS: "b \<noteq> S" and "OMap_get m b \<noteq> None" by auto
    then obtain b1 where b1: "OMap_get m1 b = Some b1"
      by (cases "OMap_get m b") (auto simp: get1)
    from updateSibling_result[OF S1 b1] obtain m2 where
      "updateSibling m1 S b = Inr m2" "OMap_keys m2 = OMap_keys m1"
      "\<And>k. OMap_get m2 k = (if k = b then Some (b1\<lparr>getPrevSiblingKey := Some S\<rparr>)
           else if k = S then Some (sp\<lparr>getChildKeys := cs @ [K], getNextSiblingKey := Some b\<rparr>)
           else OMap_get m1 k)"
      by auto
    then show ?thesis
      apply (intro exI[of _ m2])
      using b1 S1 bS by (auto simp: Some option.map_ident)
  qed
  then obtain m2 where m2: "(case getNextSiblingKey block of
               Some nextSibling \<Rightarrow> updateSibling m1 S nextSibling
             | None \<Rightarrow> clearSibling m1 S (\<lambda>np. np\<lparr>getNextSiblingKey := None\<rparr>)) = Inr m2"
    and keys2: "OMap_keys m2 = OMap_keys m1"
    and get2: "\<And>k. OMap_get m2 k = map_option (\<lambda>b.
              if getNextSiblingKey block = Some k then b\<lparr>getPrevSiblingKey := Some S\<rparr>
              else if k = S then b\<lparr>getNextSiblingKey := getNextSiblingKey block\<rparr>
              else b) (OMap_get m1 k)"
    by blast
  \<comment> \<open>step 3\<close>
  have "\<And>P. getParentKey block = Some P \<Longrightarrow> OMap_get m2 P \<noteq> None"
    using par by (simp add: get2 get1)
  from removeFromParent_any[OF this, where key = K]
  obtain r where r: "removeFromParent m2 K (getParentKey block) = Inr r"
    and keys3: "OMap_keys r = OMap_keys m2"
    and get3: "\<And>k. OMap_get r k = map_option (\<lambda>b. if getParentKey block = Some k
          then b\<lparr>getChildKeys := List_delete (getChildKeys b) (List_indexOf (getChildKeys b) K)\<rparr>
          else b) (OMap_get m2 k)"
    by blast
  have run: "updateAsSiblingsChild dev isValidTree m K SiblingPrevious =
            (if dev \<and> \<not> (isValidTree m \<and> isValidTree r)
             then Inl (InvariantViolation ''The tree is not valid'') else Inr r)"
    using K pv S emp m1 m2 r
    by (simp add: updateAsSiblingsChild_def verifyTree_def err_bind_def cs[symmetric])
  define f1 :: "string \<Rightarrow> ContentBlockNode \<Rightarrow> ContentBlockNode" where "f1 k b =
        (if k = K then b\<lparr>getParentKey := Some S,
                   getPrevSiblingKey := (if cs = [] then None else Some (last cs)),
                   getNextSiblingKey := None\<rparr>
         else if cs \<noteq> [] \<and> k = last cs then b\<lparr>getNextSiblingKey := Some K\<rparr>
         else if k = S then b\<lparr>getChildKeys := cs @ [K]\<rparr>
         else b)" for k b
  define f2 :: "string \<Rightarrow> ContentBlockNode \<Rightarrow> ContentBlockNode" where "f2 k b =
        (if getNextSiblingKey block = Some k then b\<lparr>getPrevSiblingKey := Some S\<rparr>
         else if k = S then b\<lparr>getNextSiblingKey := getNextSiblingKey block\<rparr>
         else b)" for k b
  define f3 :: "string \<Rightarrow> ContentBlockNode \<Rightarrow> ContentBlockNode" where "f3 k b =
        (if getParentKey block = Some k
          then b\<lparr>getChildKeys := List_delete (getChildKeys b) (List_indexOf (getChildKeys b) K)\<rparr>
          else b)" for k b
  have getr: "OMap_get r k = map_option (\<lambda>b. f3 k (f2 k (f1 k b))) (OMap_get m k)" for k
    unfolding get3 get2 get1 f1_def f2_def f3_def by (simp add: option.map_comp comp_def)
  have none: "\<forall>k. OMap_get m k = None \<longrightarrow> OMap_get r k = None" by (simp add: getr)
  have p1: "getParentKey (f1 k b) = (if k = K then Some S else getParentKey b)"
      "getPrevSiblingKey (f1 k b) = (if k = K then (if cs = [] then None else Some (last cs)) else getPrevSiblingKey b)"
      "getNextSiblingKey (f1 k b) = (if k = K then None else if cs \<noteq> [] \<and> k = last cs then Some K
                                    else getNextSiblingKey b)"
      "getChildKeys (f1 k b) = (if k \<noteq> K \<and> \<not> (cs \<noteq> [] \<and> k = last cs) \<and> k = S then cs @ [K] else getChildKeys b)"
    for k b by (simp_all add: f1_def)
  have p2: "getParentKey (f2 k b) = getParentKey b"
      "getPrevSiblingKey (f2 k b) = (if getNextSiblingKey block = Some k then Some S else getPrevSiblingKey b)"
      "getNextSiblingKey (f2 k b) = (if getNextSiblingKey block \<noteq> Some k \<and> k = S then getNextSiblingKey block
                                    else getNextSiblingKey b)"
      "getChildKeys (f2 k b) = getChildKeys b"
    for k b by (simp_all add: f2_def)
  have p3: "getParentKey (f3 k b) = getParentKey b"
      "getPrevSiblingKey (f3 k b) = getPrevSiblingKey b"
      "getNextSiblingKey (f3 k b) = getNextSiblingKey b"
      "getChildKeys (f3 k b) = (if getParentKey block = Some k
          then List_delete (getChildKeys b) (List_indexOf (getChildKeys b) K) else getChildKeys b)"
    for k b by (simp_all add: f3_def)
  have fields: "\<exists>b'. OMap_get r k = Some b' \<and>
             getParentKey b' = (if k = K then Some S else getParentKey b) \<and>
             getPrevSiblingKey b' = (if getNextSiblingKey block = Some k then Some S
                                   else if k = K then (if cs = [] then None else Some (last cs))
                                   else getPrevSiblingKey b) \<and>
             getNextSiblingKey b' = (if k = S then getNextSiblingKey block
                                   else if k = K then None
                                   else if cs \<noteq> [] \<and> k = last cs then Some K
                                   else getNextSiblingKey b) \<and>
             getChildKeys b' = (let base = (if k = S then cs @ [K] else getChildKeys b)
                              in if getParentKey block = Some k
                                 then List_delete base (List_indexOf base K) else base)"
    if kb: "OMap_get m k = Some b" for k b
  proof (intro exI[of _ "f3 k (f2 k (f1 k b))"] conjI)
    show "OMap_get r k = Some (f3 k (f2 k (f1 k b)))" by (simp add: getr kb)
    show "getParentKey (f3 k (f2 k (f1 k b))) = (if k = K then Some S else getParentKey b)"
      by (simp add: p1 p2 p3)
    show "getPrevSiblingKey (f3 k (f2 k (f1 k b))) = (if getNextSiblingKey block = Some k then Some S
                                   else if k = K then (if cs = [] then None else Some (last cs))
                                   else getPrevSiblingKey b)"
      by (simp add: p1 p2 p3)
    show "getNextSiblingKey (f3 k (f2 k (f1 k b))) = (if k = S then getNextSiblingKey block
                                   else if k = K then None
                                   else if cs \<noteq> [] \<and> k = last cs then Some K
                                   else getNextSiblingKey b)"
      using KS lastc nxt by (auto simp: p1 p2 p3)
    show "getChildKeys (f3 k (f2 k (f1 k b))) = (let base = (if k = S then cs @ [K] else getChildKeys b)
                              in if getParentKey block = Some k
                                 then List_delete base (List_indexOf base K) else base)"
      using KS lastc by (auto simp: p1 p2 p3 Let_def)
  qed
  show ?thesis
    apply (intro exI[of _ r])
    using run keys1 keys2 keys3 none fields by simp
qed

lemma adjacent_keep:
  assumes d: "distinct ks" and adj: "take 2 (dropWhile (\<lambda>k. k \<noteq> K) ks) = [K, S]"
  shows "set (takeWhile (\<lambda>k. k \<noteq> K) ks) \<union> {S, K} \<union> set (drop 1 (dropWhile (\<lambda>k. k \<noteq> S) ks)) = set ks"
proof -
  define pre where "pre = takeWhile (\<lambda>k. k \<noteq> K) ks"
  define rest where "rest = dropWhile (\<lambda>k. k \<noteq> K) ks"
  have ks: "ks = pre @ rest" by (simp add: pre_def rest_def)
  from adj obtain rest' where rest: "rest = K # S # rest'"
    unfolding rest_def[symmetric]
    by (cases rest; cases "tl rest") auto
  have KS: "K \<noteq> S" and Spre: "S \<notin> set pre"
    using d unfolding ks rest by auto
  have "dropWhile (\<lambda>k. k \<noteq> S) ks = S # rest'"
  proof -
    have "dropWhile (\<lambda>k. k \<noteq> S) (pre @ K # S # rest') = dropWhile (\<lambda>k. k \<noteq> S) (K # S # rest')"
      by (rule dropWhile_append2) (use Spre in auto)
    then show ?thesis using KS by (simp add: ks rest)
  qed
  then have "set (drop 1 (dropWhile (\<lambda>k. k \<noteq> S) ks)) = set rest'" by simp
  moreover have "set ks = set pre \<union> {S, K} \<union> set rest'" unfolding ks rest by auto
  ultimately show ?thesis by (simp add: pre_def)
qed

lemma adoptNext_fields:
  assumes om: "ordered_map m" and kc: "keys_consistent m"
    and K: "OMap_get m K = Some block" and nx: "getNextSiblingKey block = Some S"
    and S: "OMap_get m S = Some sp" and emp: "getText sp = []" and KS: "K \<noteq> S"
    and cs: "cs = getChildKeys sp"
    and firstc: "cs \<noteq> [] \<Longrightarrow> OMap_get m (hd cs) \<noteq> None \<and> hd cs \<noteq> S \<and> hd cs \<noteq> K"
    and prv: "\<And>a. getPrevSiblingKey block = Some a \<Longrightarrow> OMap_get m a \<noteq> None \<and> a \<noteq> S"
    and par: "\<And>P. getParentKey block = Some P \<Longrightarrow> OMap_get m P \<noteq> None"
    and adj: "take 2 (dropWhile (\<lambda>k. k \<noteq> K) (OMap_keys m)) = [K, S]"
  shows "\<exists>r. updateAsSiblingsChild dev isValidTree m K SiblingNext =
            (if dev \<and> \<not> (isValidTree m \<and> isValidTree r)
             then Inl (InvariantViolation ''The tree is not valid'') else Inr r) \<and>
        ordered_map r \<and> set (OMap_keys r) = set (OMap_keys m) \<and> precedes r S K \<and>
        (\<forall>k. OMap_get m k = None \<longrightarrow> OMap_get r k = None) \<and>
        (\<forall>k b. OMap_get m k = Some b \<longrightarrow> (\<exists>b'. OMap_get r k = Some b' \<and>
             getParentKey b' = (if k = K then Some S else getParentKey b) \<and>
             getPrevSiblingKey b' = (if k = S then getPrevSiblingKey block
                                   else if k = K then None
                                   else if cs \<noteq> [] \<and> k = hd cs then Some K
                                   else getPrevSiblingKey b) \<and>
             getNextSiblingKey b' = (if getPrevSiblingKey block = Some k then Some S
                                   else if k = K then (if cs = [] then None else Some (hd cs))
                                   else getNextSiblingKey b) \<and>
             getChildKeys b' = (let base = (if k = S then K # cs else getChildKeys b)
                              in if getParentKey block = Some k
                                 then List_delete base (List_indexOf base K) else base)))"
proof -
  have c0: "(case cs of [] \<Rightarrow> None | c0 # rest \<Rightarrow> Some c0) = (if cs = [] then None else Some (hd cs))"
    "\<And>k. (case cs of [] \<Rightarrow> False | c0 # rest \<Rightarrow> k = c0) = (cs \<noteq> [] \<and> k = hd cs)"
    by (cases cs; simp)+
  \<comment> \<open>step 1\<close>
  have "case getChildKeys sp of [] \<Rightarrow> True | c0 # rest \<Rightarrow> OMap_get m c0 \<noteq> None"
    using firstc by (cases cs) (auto simp: cs[symmetric])
  from updateParentChild_first_result[OF S K this]
  obtain m1 where m1: "updateParentChild m S K 0 = Inr m1"
    and keys1: "OMap_keys m1 = OMap_keys m"
    and raw1: "\<And>k. OMap_get m1 k =
        (if k = K then
           Some (block\<lparr>getParentKey := Some S, getPrevSiblingKey := None,
                   getNextSiblingKey := (if cs = [] then None else Some (hd cs))\<rparr>)
         else if cs \<noteq> [] \<and> k = hd cs then
           Some ((the (OMap_get m k))\<lparr>getPrevSiblingKey := Some K\<rparr>)
         else if k = S then Some (sp\<lparr>getChildKeys := K # cs\<rparr>)
         else OMap_get m k)"
    unfolding cs[symmetric] c0 by blast
  define f1 :: "string \<Rightarrow> ContentBlockNode \<Rightarrow> ContentBlockNode" where "f1 k b =
         (if k = K then b\<lparr>getParentKey := Some S, getPrevSiblingKey := None,
                   getNextSiblingKey := (if cs = [] then None else Some (hd cs))\<rparr>
         else if cs \<noteq> [] \<and> k = hd cs then b\<lparr>getPrevSiblingKey := Some K\<rparr>
         else if k = S then b\<lparr>getChildKeys := K # cs\<rparr>
         else b)" for k b
  have get1: "OMap_get m1 k = map_option (f1 k) (OMap_get m k)" for k
    using K S firstc by (cases "OMap_get m k") (auto simp: raw1 f1_def)
  have S1: "OMap_get m1 S = Some (sp\<lparr>getChildKeys := K # cs\<rparr>)"
    using KS firstc by (auto simp: raw1)
  \<comment> \<open>step 2\<close>
  define f2 :: "string \<Rightarrow> ContentBlockNode \<Rightarrow> ContentBlockNode" where "f2 k b =
        (if k = S then b\<lparr>getPrevSiblingKey := getPrevSiblingKey block\<rparr>
         else if getPrevSiblingKey block = Some k then b\<lparr>getNextSiblingKey := Some S\<rparr>
         else b)" for k b
  have f2other: "map_option (f2 k) x = x" if "k \<noteq> S" "getPrevSiblingKey block \<noteq> Some k" for k x
    using that by (cases x) (simp_all add: f2_def)
  have "\<exists>m2. (case getPrevSiblingKey block of
               Some prevSibling \<Rightarrow> updateSibling m1 prevSibling S
             | None \<Rightarrow> clearSibling m1 S (\<lambda>np. np\<lparr>getPrevSiblingKey := None\<rparr>)) = Inr m2 \<and>
          OMap_keys m2 = OMap_keys m1 \<and>
          (\<forall>k. OMap_get m2 k = map_option (f2 k) (OMap_get m1 k))"
  proof (cases "getPrevSiblingKey block")
    case None
    show ?thesis
      using clearSibling_result[OF S1, of "\<lambda>np. np\<lparr>getPrevSiblingKey := None\<rparr>"]
      by (auto simp: None OMap_get_set S1 f2other) (simp add: f2_def None)
  next
    case (Some a)
    from prv[OF Some] have aS: "a \<noteq> S" and "OMap_get m a \<noteq> None" by auto
    then obtain a1 where a1: "OMap_get m1 a = Some a1"
      by (cases "OMap_get m a") (auto simp: get1)
    from updateSibling_result[OF a1 S1] obtain m2 where
      "updateSibling m1 a S = Inr m2" "OMap_keys m2 = OMap_keys m1"
      "\<And>k. OMap_get m2 k = (if k = S then Some (sp\<lparr>getChildKeys := K # cs, getPrevSiblingKey := Some a\<rparr>)
           else if k = a then Some (a1\<lparr>getNextSiblingKey := Some S\<rparr>)
           else OMap_get m1 k)"
      by auto
    then show ?thesis
      apply (intro exI[of _ m2])
      using a1 S1 aS by (auto simp: Some f2other) (simp_all add: f2_def Some)
  qed
  then obtain m2 where m2: "(case getPrevSiblingKey block of
               Some prevSibling \<Rightarrow> updateSibling m1 prevSibling S
             | None \<Rightarrow> clearSibling m1 S (\<lambda>np. np\<lparr>getPrevSiblingKey := None\<rparr>)) = Inr m2"
    and keys2: "OMap_keys m2 = OMap_keys m1"
    and get2: "\<And>k. OMap_get m2 k = map_option (f2 k) (OMap_get m1 k)"
    by blast
  \<comment> \<open>step 3\<close>
  have om2: "ordered_map m2" using om keys1 keys2 by (simp add: ordered_map_def)
  have kf: "getKey (f2 k (f1 k b)) = getKey b" for k b by (simp add: f1_def f2_def)
  have kc2: "keys_consistent m2"
  proof (rule keys_consistent_intro[OF om2])
    fix k v assume "OMap_get m2 k = Some v"
    then obtain b where "OMap_get m k = Some b" "v = f2 k (f1 k b)"
      by (auto simp: get2 get1)
    then show "getKey v = k" using keys_consistent_get[OF kc] kf by simp
  qed
  obtain s2 b2 where s2: "OMap_get m2 S = Some s2" and b2: "OMap_get m2 K = Some b2"
    using S K by (auto simp: get2 get1)
  from flipOrder_result[OF om2 kc2 s2 b2 KS]
  obtain r3 where r3: "flipOrder m2 K S = Inr r3" and om3: "ordered_map r3"
    and prec3: "precedes r3 S K"
    and sub3: "\<And>k v. OMap_get r3 k = Some v \<Longrightarrow> OMap_get m2 k = Some v"
    and keys3: "set (OMap_keys r3) = set (takeWhile (\<lambda>k. k \<noteq> K) (OMap_keys m2)) \<union> {S, K} \<union>
        set (drop 1 (dropWhile (\<lambda>k. k \<noteq> S) (OMap_keys m2)))"
    by blast
  have keys3': "set (OMap_keys r3) = set (OMap_keys m)"
    unfolding keys3 keys2 keys1 using om adj by (intro adjacent_keep) (simp_all add: ordered_map_def)
  have get3: "OMap_get r3 k = OMap_get m2 k" for k
  proof (cases "OMap_get r3 k")
    case None
    then show ?thesis using keys3' keys2 keys1 OMap_get_None_iff by metis
  next
    case (Some v)
    with sub3[OF Some] show ?thesis by simp
  qed
  \<comment> \<open>step 4\<close>
  define f3 :: "string \<Rightarrow> ContentBlockNode \<Rightarrow> ContentBlockNode" where "f3 k b =
        (if getParentKey block = Some k
          then b\<lparr>getChildKeys := List_delete (getChildKeys b) (List_indexOf (getChildKeys b) K)\<rparr>
          else b)" for k b
  have "\<And>P. getParentKey block = Some P \<Longrightarrow> OMap_get r3 P \<noteq> None"
    using par by (simp add: get3 get2 get1)
  from removeFromParent_any[OF this, where key = K]
  obtain r where r: "removeFromParent r3 K (getParentKey block) = Inr r"
    and keys4: "OMap_keys r = OMap_keys r3"
    and get4: "\<And>k. OMap_get r k = map_option (f3 k) (OMap_get r3 k)"
    unfolding f3_def by blast
  have run: "updateAsSiblingsChild dev isValidTree m K SiblingNext =
            (if dev \<and> \<not> (isValidTree m \<and> isValidTree r)
             then Inl (InvariantViolation ''The tree is not valid'') else Inr r)"
    using K nx S emp m1 m2 r3 r
    by (simp add: updateAsSiblingsChild_def verifyTree_def err_bind_def)
  have getr: "OMap_get r k = map_option (\<lambda>b. f3 k (f2 k (f1 k b))) (OMap_get m k)" for k
    unfolding get4 get3 get2 get1 by (simp add: option.map_comp comp_def)
  have none: "\<forall>k. OMap_get m k = None \<longrightarrow> OMap_get r k = None" by (simp add: getr)
  have p1: "getParentKey (f1 k b) = (if k = K then Some S else getParentKey b)"
      "getPrevSiblingKey (f1 k b) = (if k = K then None else if cs \<noteq> [] \<and> k = hd cs then Some K
                                    else getPrevSiblingKey b)"
      "getNextSiblingKey (f1 k b) = (if k = K then (if cs = [] then None else Some (hd cs)) else getNextSiblingKey b)"
      "getChildKeys (f1 k b) = (if k \<noteq> K \<and> \<not> (cs \<noteq> [] \<and> k = hd cs) \<and> k = S then K # cs else getChildKeys b)"
    for k b by (simp_all add: f1_def)
  have p2: "getParentKey (f2 k b) = getParentKey b"
      "getPrevSiblingKey (f2 k b) = (if k = S then getPrevSiblingKey block else getPrevSiblingKey b)"
      "getNextSiblingKey (f2 k b) = (if k \<noteq> S \<and> getPrevSiblingKey block = Some k then Some S
                                    else getNextSiblingKey b)"
      "getChildKeys (f2 k b) = getChildKeys b"
    for k b by (simp_all add: f2_def)
  have p3: "getParentKey (f3 k b) = getParentKey b"
      "getPrevSiblingKey (f3 k b) = getPrevSiblingKey b"
      "getNextSiblingKey (f3 k b) = getNextSiblingKey b"
      "getChildKeys (f3 k b) = (if getParentKey block = Some k
          then List_delete (getChildKeys b) (List_indexOf (getChildKeys b) K) else getChildKeys b)"
    for k b by (simp_all add: f3_def)
  have fields: "\<exists>b'. OMap_get r k = Some b' \<and>
             getParentKey b' = (if k = K then Some S else getParentKey b) \<and>
             getPrevSiblingKey b' = (if k = S then getPrevSiblingKey block
                                   else if k = K then None
                                   else if cs \<noteq> [] \<and> k = hd cs then Some K
                                   else getPrevSiblingKey b) \<and>
             getNextSiblingKey b' = (if getPrevSiblingKey block = Some k then Some S
                                   else if k = K then (if cs = [] then None else Some (hd cs))
                                   else getNextSiblingKey b) \<and>
             getChildKeys b' = (let base = (if k = S then K # cs else getChildKeys b)
                              in if getParentKey block = Some k
                                 then List_delete base (List_indexOf base K) else base)"
    if kb: "OMap_get m k = Some b" for k b
  proof (intro exI[of _ "f3 k (f2 k (f1 k b))"] conjI)
    show "OMap_get r k = Some (f3 k (f2 k (f1 k b)))" by (simp add: getr kb)
    show "getParentKey (f3 k (f2 k (f1 k b))) = (if k = K then Some S else getParentKey b)"
      by (simp add: p1 p2 p3)
    show "getPrevSiblingKey (f3 k (f2 k (f1 k b))) = (if k = S then getPrevSiblingKey block
                                   else if k = K then None
                                   else if cs \<noteq> [] \<and> k = hd cs then Some K
                                   else getPrevSiblingKey b)"
      using KS firstc by (auto simp: p1 p2 p3)
    show "getNextSiblingKey (f3 k (f2 k (f1 k b))) = (if getPrevSiblingKey block = Some k then Some S
                                   else if k = K then (if cs = [] then None else Some (hd cs))
                                   else getNextSiblingKey b)"
      using KS prv by (auto simp: p1 p2 p3)
    show "getChildKeys (f3 k (f2 k (f1 k b))) = (let base = (if k = S then K # cs else getChildKeys b)
                              in if getParentKey block = Some k
                                 then List_delete base (List_indexOf base K) else base)"
      using KS firstc by (auto simp: p1 p2 p3 Let_def)
  qed
  have "precedes r S K" using prec3 precedes_keys_eq[OF keys4] by simp
  moreover have "ordered_map r" using om3 keys4 by (simp add: ordered_map_def)
  moreover have "set (OMap_keys r) = set (OMap_keys m)" using keys3' keys4 by simp
  ultimately show ?thesis
    apply (intro exI[of _ r])
    using run none fields by simp
qed

lemma set_List_delete_subset: "set (List_delete xs i) \<subseteq> set xs"
  by (auto simp: List_delete_def Let_def dest: in_set_takeD in_set_dropD)

lemma set_List_delete_indexOf:
  assumes "distinct xs"
  shows "set (List_delete xs (List_indexOf xs K)) \<subseteq> set xs - {K}"
proof (cases "K \<in> set xs")
  case True
  then show ?thesis using assms by (simp add: List_delete_indexOf_in)
next
  case False
  then show ?thesis using set_List_delete_subset[of xs "List_indexOf xs K"] by auto
qed

lemma adoptPrevious_symmetric:
  assumes om: "ordered_map m" and sym: "symmetric m"
    and K: "OMap_get m K = Some block" and pv: "getPrevSiblingKey block = Some S"
    and S: "OMap_get m S = Some sp" and emp: "getText sp = []" and KS: "K \<noteq> S"
    and cs: "cs = getChildKeys sp"
    and nopar: "getParentKey block \<noteq> Some S"
    and lastc: "cs \<noteq> [] \<Longrightarrow> last cs \<noteq> S \<and>
                  (\<forall>x. OMap_get m (last cs) = Some x \<longrightarrow> getNextSiblingKey x = None)"
    and nxt: "getNextSiblingKey block \<noteq> Some S"
    and par: "\<And>P. getParentKey block = Some P \<Longrightarrow> \<exists>pn. OMap_get m P = Some pn \<and> distinct (getChildKeys pn)"
  shows "\<exists>r. updateAsSiblingsChild dev isValidTree m K SiblingPrevious =
            (if dev \<and> \<not> (isValidTree m \<and> isValidTree r)
             then Inl (InvariantViolation ''The tree is not valid'') else Inr r) \<and>
        ordered_map r \<and> symmetric r"
proof -
  note s = sym[unfolded symmetric_iff[OF om], rule_format]
  have symN: "\<exists>nb. OMap_get m nx = Some nb \<and> getPrevSiblingKey nb = Some k"
    if "OMap_get m k = Some b" "getNextSiblingKey b = Some nx" for k b nx
    using s[OF that(1)] that(2) by blast
  have symP: "\<exists>pb. OMap_get m pv = Some pb \<and> getNextSiblingKey pb = Some k"
    if "OMap_get m k = Some b" "getPrevSiblingKey b = Some pv" for k b pv
    using s[OF that(1)] that(2) by blast
  have symC: "\<exists>cb. OMap_get m c = Some cb \<and> getParentKey cb = Some k"
    if "OMap_get m k = Some b" "c \<in> set (getChildKeys b)" for k b c
    using s[OF that(1)] that(2) by blast
  have Kcs: "K \<notin> set cs"
  proof
    assume "K \<in> set cs"
    with symC[OF S, of K] K cs have "getParentKey block = Some S" by auto
    with nopar show False by simp
  qed
  have Snext: "getNextSiblingKey sp = Some K" using symP[OF K pv] S by simp
  have nextK: "getNextSiblingKey block \<noteq> Some K"
  proof
    assume "getNextSiblingKey block = Some K"
    from symN[OF K this] K pv KS show False by simp
  qed
  have lastex: "cs \<noteq> [] \<Longrightarrow> \<exists>x. OMap_get m (last cs) = Some x \<and> getNextSiblingKey x = None"
    using symC[OF S, of "last cs"] lastc cs by fastforce
  have lastK: "cs \<noteq> [] \<Longrightarrow> last cs \<noteq> K" using Kcs last_in_set by metis
  have h1: "cs \<noteq> [] \<Longrightarrow> OMap_get m (last cs) \<noteq> None \<and> last cs \<noteq> S \<and> last cs \<noteq> K"
    using lastex lastc lastK by auto
  have h2: "\<And>b. getNextSiblingKey block = Some b \<Longrightarrow> OMap_get m b \<noteq> None \<and> b \<noteq> S"
    using symN[OF K] nxt by fastforce
  have h3: "\<And>P. getParentKey block = Some P \<Longrightarrow> OMap_get m P \<noteq> None"
    using par by fastforce
  from adoptPrevious_fields[OF K pv S emp KS cs h1 h2 h3, of dev isValidTree]
  obtain r where run: "updateAsSiblingsChild dev isValidTree m K SiblingPrevious =
            (if dev \<and> \<not> (isValidTree m \<and> isValidTree r)
             then Inl (InvariantViolation ''The tree is not valid'') else Inr r)"
    and keysr: "OMap_keys r = OMap_keys m"
    and rnone: "\<And>k. OMap_get m k = None \<Longrightarrow> OMap_get r k = None"
    and rsome: "\<And>k b. OMap_get m k = Some b \<Longrightarrow> \<exists>b'. OMap_get r k = Some b' \<and>
             getParentKey b' = (if k = K then Some S else getParentKey b) \<and>
             getPrevSiblingKey b' = (if getNextSiblingKey block = Some k then Some S
                                   else if k = K then (if cs = [] then None else Some (last cs))
                                   else getPrevSiblingKey b) \<and>
             getNextSiblingKey b' = (if k = S then getNextSiblingKey block
                                   else if k = K then None
                                   else if cs \<noteq> [] \<and> k = last cs then Some K
                                   else getNextSiblingKey b) \<and>
             getChildKeys b' = (let base = (if k = S then cs @ [K] else getChildKeys b)
                              in if getParentKey block = Some k
                                 then List_delete base (List_indexOf base K) else base)"
    by blast
  have omr: "ordered_map r" using om keysr by (simp add: ordered_map_def)
  have rinv: "\<exists>b0. OMap_get m k = Some b0 \<and>
             getParentKey b = (if k = K then Some S else getParentKey b0) \<and>
             getPrevSiblingKey b = (if getNextSiblingKey block = Some k then Some S
                                   else if k = K then (if cs = [] then None else Some (last cs))
                                   else getPrevSiblingKey b0) \<and>
             getNextSiblingKey b = (if k = S then getNextSiblingKey block
                                   else if k = K then None
                                   else if cs \<noteq> [] \<and> k = last cs then Some K
                                   else getNextSiblingKey b0) \<and>
             getChildKeys b = (let base = (if k = S then cs @ [K] else getChildKeys b0)
                              in if getParentKey block = Some k
                                 then List_delete base (List_indexOf base K) else base)"
    if "OMap_get r k = Some b" for k b
  proof (cases "OMap_get m k")
    case None
    with rnone that show ?thesis by simp
  next
    case (Some b0)
    with rsome[OF Some] that show ?thesis by auto
  qed
  have "symmetric r"
    unfolding symmetric_iff[OF omr]
  proof (intro allI impI conjI ballI)
    fix k b nx assume kb: "OMap_get r k = Some b" and nx: "getNextSiblingKey b = Some nx"
    from rinv[OF kb] obtain b0 where b0: "OMap_get m k = Some b0"
      and nb: "getNextSiblingKey b = (if k = S then getNextSiblingKey block
                                   else if k = K then None
                                   else if cs \<noteq> [] \<and> k = last cs then Some K
                                   else getNextSiblingKey b0)" by blast
    consider (S) "k = S" | (L) "k \<noteq> S" "k \<noteq> K" "cs \<noteq> []" "k = last cs"
      | (O) "k \<noteq> S" "k \<noteq> K" "\<not> (cs \<noteq> [] \<and> k = last cs)"
      using nb nx KS by (cases "k = K") (auto split: if_splits)
    then show "\<exists>nb. OMap_get r nx = Some nb \<and> getPrevSiblingKey nb = Some k"
    proof cases
      case S
      with nb nx have nk: "getNextSiblingKey block = Some nx" by simp
      from symN[OF K nk] obtain x where x: "OMap_get m nx = Some x" by blast
      from rsome[OF x] nk S show ?thesis by auto
    next
      case L
      with nb nx have "nx = K" by simp
      with rsome[OF K] nextK L show ?thesis by auto
    next
      case O
      with nb nx have n0: "getNextSiblingKey b0 = Some nx" by auto
      from symN[OF b0 n0] obtain x where x: "OMap_get m nx = Some x" "getPrevSiblingKey x = Some k" by blast
      have "getNextSiblingKey block \<noteq> Some nx"
      proof
        assume "getNextSiblingKey block = Some nx"
        from symN[OF K this] x O show False by simp
      qed
      moreover have "nx \<noteq> K" using x K pv O by auto
      ultimately show ?thesis using rsome[OF x(1)] x(2) by auto
    qed
  next
    fix k b pvk assume kb: "OMap_get r k = Some b" and pk: "getPrevSiblingKey b = Some pvk"
    from rinv[OF kb] obtain b0 where b0: "OMap_get m k = Some b0"
      and pb: "getPrevSiblingKey b = (if getNextSiblingKey block = Some k then Some S
                                   else if k = K then (if cs = [] then None else Some (last cs))
                                   else getPrevSiblingKey b0)" by blast
    consider (N) "getNextSiblingKey block = Some k"
      | (K) "getNextSiblingKey block \<noteq> Some k" "k = K" "cs \<noteq> []"
      | (O) "getNextSiblingKey block \<noteq> Some k" "k \<noteq> K"
      using pb pk KS by (cases "k = K"; cases "cs = []") (auto split: if_splits)
    then show "\<exists>pb. OMap_get r pvk = Some pb \<and> getNextSiblingKey pb = Some k"
    proof cases
      case N
      with pb pk have "pvk = S" by simp
      with rsome[OF S] N show ?thesis by auto
    next
      case K
      with pb pk have pl: "pvk = last cs" by simp
      from lastex[OF K(3)] obtain x where x: "OMap_get m (last cs) = Some x" by blast
      from rsome[OF x] h1[OF K(3)] K pl show ?thesis by auto
    next
      case O
      with pb pk have p0: "getPrevSiblingKey b0 = Some pvk" by auto
      from symP[OF b0 p0] obtain x where x: "OMap_get m pvk = Some x" "getNextSiblingKey x = Some k" by blast
      have "pvk \<noteq> S" using x S Snext O by auto
      moreover have "pvk \<noteq> K" using x \<open>OMap_get m K = Some block\<close> O by auto
      moreover have "\<not> (cs \<noteq> [] \<and> pvk = last cs)" using x lastex by fastforce
      ultimately show ?thesis using rsome[OF x(1)] x(2) by auto
    qed
  next
    fix k b c assume kb: "OMap_get r k = Some b" and c: "c \<in> set (getChildKeys b)"
    from rinv[OF kb] obtain b0 where b0: "OMap_get m k = Some b0"
      and cb: "getChildKeys b = (let base = (if k = S then cs @ [K] else getChildKeys b0)
                              in if getParentKey block = Some k
                                 then List_delete base (List_indexOf base K) else base)" by blast
    consider (P) "getParentKey block = Some k" "k \<noteq> S"
      | (S) "getParentKey block \<noteq> Some k" "k = S"
      | (O) "getParentKey block \<noteq> Some k" "k \<noteq> S"
      using nopar by (cases "k = S") auto
    then show "\<exists>cb. OMap_get r c = Some cb \<and> getParentKey cb = Some k"
    proof cases
      case P
      from par[OF P(1)] b0 have "distinct (getChildKeys b0)" by simp
      from set_List_delete_indexOf[OF this, of K] c cb P
      have cc: "c \<in> set (getChildKeys b0)" "c \<noteq> K" by (auto simp: Let_def)
      from symC[OF b0 cc(1)] obtain x where x: "OMap_get m c = Some x" "getParentKey x = Some k" by blast
      from rsome[OF x(1)] x(2) cc(2) show ?thesis by auto
    next
      case S
      with c cb have "c = K \<or> c \<in> set cs" by (auto simp: Let_def)
      then show ?thesis
      proof
        assume "c = K"
        with rsome[OF K] S show ?thesis by auto
      next
        assume ccs: "c \<in> set cs"
        with Kcs have cK: "c \<noteq> K" by auto
        from symC[OF \<open>OMap_get m S = Some sp\<close>, of c] ccs cs
        obtain x where x: "OMap_get m c = Some x" "getParentKey x = Some S" by auto
        from rsome[OF x(1)] x(2) cK S show ?thesis by auto
      qed
    next
      case O
      with c cb have cc: "c \<in> set (getChildKeys b0)" by (simp add: Let_def)
      from symC[OF b0 cc] obtain x where x: "OMap_get m c = Some x" "getParentKey x = Some k" by blast
      have "c \<noteq> K" using x K O by auto
      with rsome[OF x(1)] x(2) show ?thesis by auto
    qed
  qed
  with run omr show ?thesis by blast
qed

lemma adoptNext_symmetric:
  assumes om: "ordered_map m" and kc: "keys_consistent m" and sym: "symmetric m"
    and K: "OMap_get m K = Some block" and nx: "getNextSiblingKey block = Some S"
    and S: "OMap_get m S = Some sp" and emp: "getText sp = []" and KS: "K \<noteq> S"
    and cs: "cs = getChildKeys sp"
    and nopar: "getParentKey block \<noteq> Some S"
    and firstc: "cs \<noteq> [] \<Longrightarrow> hd cs \<noteq> S \<and>
                  (\<forall>x. OMap_get m (hd cs) = Some x \<longrightarrow> getPrevSiblingKey x = None)"
    and prv: "getPrevSiblingKey block \<noteq> Some S"
    and par: "\<And>P. getParentKey block = Some P \<Longrightarrow> \<exists>pn. OMap_get m P = Some pn \<and> distinct (getChildKeys pn)"
    and adj: "take 2 (dropWhile (\<lambda>k. k \<noteq> K) (OMap_keys m)) = [K, S]"
  shows "\<exists>r. updateAsSiblingsChild dev isValidTree m K SiblingNext =
            (if dev \<and> \<not> (isValidTree m \<and> isValidTree r)
             then Inl (InvariantViolation ''The tree is not valid'') else Inr r) \<and>
        ordered_map r \<and> symmetric r \<and> precedes r S K \<and> set (OMap_keys r) = set (OMap_keys m)"
proof -
  note s = sym[unfolded symmetric_iff[OF om], rule_format]
  have symN: "\<exists>nb. OMap_get m nx = Some nb \<and> getPrevSiblingKey nb = Some k"
    if "OMap_get m k = Some b" "getNextSiblingKey b = Some nx" for k b nx
    using s[OF that(1)] that(2) by blast
  have symP: "\<exists>pb. OMap_get m pv = Some pb \<and> getNextSiblingKey pb = Some k"
    if "OMap_get m k = Some b" "getPrevSiblingKey b = Some pv" for k b pv
    using s[OF that(1)] that(2) by blast
  have symC: "\<exists>cb. OMap_get m c = Some cb \<and> getParentKey cb = Some k"
    if "OMap_get m k = Some b" "c \<in> set (getChildKeys b)" for k b c
    using s[OF that(1)] that(2) by blast
  have Kcs: "K \<notin> set cs"
  proof
    assume "K \<in> set cs"
    with symC[OF S, of K] K cs have "getParentKey block = Some S" by auto
    with nopar show False by simp
  qed
  have Sprev: "getPrevSiblingKey sp = Some K" using symN[OF K nx] S by simp
  have prevK: "getPrevSiblingKey block \<noteq> Some K"
  proof
    assume "getPrevSiblingKey block = Some K"
    from symP[OF K this] K nx KS show False by simp
  qed
  have firstex: "cs \<noteq> [] \<Longrightarrow> \<exists>x. OMap_get m (hd cs) = Some x \<and> getPrevSiblingKey x = None"
    using symC[OF S, of "hd cs"] firstc cs by fastforce
  have firstK: "cs \<noteq> [] \<Longrightarrow> hd cs \<noteq> K" using Kcs hd_in_set by metis
  have h1: "cs \<noteq> [] \<Longrightarrow> OMap_get m (hd cs) \<noteq> None \<and> hd cs \<noteq> S \<and> hd cs \<noteq> K"
    using firstex firstc firstK by auto
  have h2: "\<And>a. getPrevSiblingKey block = Some a \<Longrightarrow> OMap_get m a \<noteq> None \<and> a \<noteq> S"
    using symP[OF K] prv by fastforce
  have h3: "\<And>P. getParentKey block = Some P \<Longrightarrow> OMap_get m P \<noteq> None"
    using par by fastforce
  from adoptNext_fields[OF om kc K nx S emp KS cs h1 h2 h3 adj, of dev isValidTree]
  obtain r where run: "updateAsSiblingsChild dev isValidTree m K SiblingNext =
            (if dev \<and> \<not> (isValidTree m \<and> isValidTree r)
             then Inl (InvariantViolation ''The tree is not valid'') else Inr r)"
    and omr: "ordered_map r" and keysr: "set (OMap_keys r) = set (OMap_keys m)"
    and precr: "precedes r S K"
    and rnone: "\<And>k. OMap_get m k = None \<Longrightarrow> OMap_get r k = None"
    and rsome: "\<And>k b. OMap_get m k = Some b \<Longrightarrow> \<exists>b'. OMap_get r k = Some b' \<and>
             getParentKey b' = (if k = K then Some S else getParentKey b) \<and>
             getPrevSiblingKey b' = (if k = S then getPrevSiblingKey block
                                   else if k = K then None
                                   else if cs \<noteq> [] \<and> k = hd cs then Some K
                                   else getPrevSiblingKey b) \<and>
             getNextSiblingKey b' = (if getPrevSiblingKey block = Some k then Some S
                                   else if k = K then (if cs = [] then None else Some (hd cs))
                                   else getNextSiblingKey b) \<and>
             getChildKeys b' = (let base = (if k = S then K # cs else getChildKeys b)
                              in if getParentKey block = Some k
                                 then List_delete base (List_indexOf base K) else base)"
    by blast
  have rinv: "\<exists>b0. OMap_get m k = Some b0 \<and>
             getParentKey b = (if k = K then Some S else getParentKey b0) \<and>
             getPrevSiblingKey b = (if k = S then getPrevSiblingKey block
                                   else if k = K then None
                                   else if cs \<noteq> [] \<and> k = hd cs then Some K
                                   else getPrevSiblingKey b0) \<and>
             getNextSiblingKey b = (if getPrevSiblingKey block = Some k then Some S
                                   else if k = K then (if cs = [] then None else Some (hd cs))
                                   else getNextSiblingKey b0) \<and>
             getChildKeys b = (let base = (if k = S then K # cs else getChildKeys b0)
                              in if getParentKey block = Some k
                                 then List_delete base (List_indexOf base K) else base)"
    if "OMap_get r k = Some b" for k b
  proof (cases "OMap_get m k")
    case None
    with rnone that show ?thesis by simp
  next
    case (Some b0)
    with rsome[OF Some] that show ?thesis by auto
  qed
  have "symmetric r"
    unfolding symmetric_iff[OF omr]
  proof (intro allI impI conjI ballI)
    fix k b nxk assume kb: "OMap_get r k = Some b" and nk: "getNextSiblingKey b = Some nxk"
    from rinv[OF kb] obtain b0 where b0: "OMap_get m k = Some b0"
      and nb: "getNextSiblingKey b = (if getPrevSiblingKey block = Some k then Some S
                                   else if k = K then (if cs = [] then None else Some (hd cs))
                                   else getNextSiblingKey b0)" by blast
    consider (P) "getPrevSiblingKey block = Some k"
      | (K) "getPrevSiblingKey block \<noteq> Some k" "k = K" "cs \<noteq> []"
      | (O) "getPrevSiblingKey block \<noteq> Some k" "k \<noteq> K"
      using nb nk KS by (cases "k = K"; cases "cs = []") (auto split: if_splits)
    then show "\<exists>nb. OMap_get r nxk = Some nb \<and> getPrevSiblingKey nb = Some k"
    proof cases
      case P
      with nb nk have "nxk = S" by simp
      with rsome[OF S] P show ?thesis by auto
    next
      case K
      with nb nk have nl: "nxk = hd cs" by simp
      from firstex[OF K(3)] obtain x where x: "OMap_get m (hd cs) = Some x" by blast
      from rsome[OF x] h1[OF K(3)] K nl show ?thesis by auto
    next
      case O
      with nb nk have n0: "getNextSiblingKey b0 = Some nxk" by auto
      from symN[OF b0 n0] obtain x where x: "OMap_get m nxk = Some x" "getPrevSiblingKey x = Some k" by blast
      have "nxk \<noteq> S" using x S Sprev O by auto
      moreover have "nxk \<noteq> K" using x \<open>OMap_get m K = Some block\<close> O by auto
      moreover have "\<not> (cs \<noteq> [] \<and> nxk = hd cs)" using x firstex by fastforce
      ultimately show ?thesis using rsome[OF x(1)] x(2) by auto
    qed
  next
    fix k b pvk assume kb: "OMap_get r k = Some b" and pk: "getPrevSiblingKey b = Some pvk"
    from rinv[OF kb] obtain b0 where b0: "OMap_get m k = Some b0"
      and pb: "getPrevSiblingKey b = (if k = S then getPrevSiblingKey block
                                   else if k = K then None
                                   else if cs \<noteq> [] \<and> k = hd cs then Some K
                                   else getPrevSiblingKey b0)" by blast
    consider (S) "k = S" | (F) "k \<noteq> S" "k \<noteq> K" "cs \<noteq> []" "k = hd cs"
      | (O) "k \<noteq> S" "k \<noteq> K" "\<not> (cs \<noteq> [] \<and> k = hd cs)"
      using pb pk KS by (cases "k = K") (auto split: if_splits)
    then show "\<exists>pb. OMap_get r pvk = Some pb \<and> getNextSiblingKey pb = Some k"
    proof cases
      case S
      with pb pk have pp: "getPrevSiblingKey block = Some pvk" by simp
      from symP[OF K pp] obtain x where x: "OMap_get m pvk = Some x" by blast
      from rsome[OF x] pp S show ?thesis by auto
    next
      case F
      with pb pk have "pvk = K" by simp
      with rsome[OF K] prevK F show ?thesis by auto
    next
      case O
      with pb pk have p0: "getPrevSiblingKey b0 = Some pvk" by auto
      from symP[OF b0 p0] obtain x where x: "OMap_get m pvk = Some x" "getNextSiblingKey x = Some k" by blast
      have "getPrevSiblingKey block \<noteq> Some pvk"
      proof
        assume "getPrevSiblingKey block = Some pvk"
        from symP[OF K this] x O show False by simp
      qed
      moreover have "pvk \<noteq> K" using x K nx O by auto
      ultimately show ?thesis using rsome[OF x(1)] x(2) by auto
    qed
  next
    fix k b c assume kb: "OMap_get r k = Some b" and c: "c \<in> set (getChildKeys b)"
    from rinv[OF kb] obtain b0 where b0: "OMap_get m k = Some b0"
      and cb: "getChildKeys b = (let base = (if k = S then K # cs else getChildKeys b0)
                              in if getParentKey block = Some k
                                 then List_delete base (List_indexOf base K) else base)" by blast
    consider (P) "getParentKey block = Some k" "k \<noteq> S"
      | (S) "getParentKey block \<noteq> Some k" "k = S"
      | (O) "getParentKey block \<noteq> Some k" "k \<noteq> S"
      using nopar by (cases "k = S") auto
    then show "\<exists>cb. OMap_get r c = Some cb \<and> getParentKey cb = Some k"
    proof cases
      case P
      from par[OF P(1)] b0 have "distinct (getChildKeys b0)" by simp
      from set_List_delete_indexOf[OF this, of K] c cb P
      have cc: "c \<in> set (getChildKeys b0)" "c \<noteq> K" by (auto simp: Let_def)
      from symC[OF b0 cc(1)] obtain x where x: "OMap_get m c = Some x" "getParentKey x = Some k" by blast
      from rsome[OF x(1)] x(2) cc(2) show ?thesis by auto
    next
      case S
      with c cb have "c = K \<or> c \<in> set cs" by (auto simp: Let_def)
      then show ?thesis
      proof
        assume "c = K"
        with rsome[OF K] S show ?thesis by auto
      next
        assume ccs: "c \<in> set cs"
        with Kcs have cK: "c \<noteq> K" by auto
        from symC[OF \<open>OMap_get m S = Some sp\<close>, of c] ccs cs
        obtain x where x: "OMap_get m c = Some x" "getParentKey x = Some S" by auto
        from rsome[OF x(1)] x(2) cK S show ?thesis by auto
      qed
    next
      case O
      with c cb have cc: "c \<in> set (getChildKeys b0)" by (simp add: Let_def)
      from symC[OF b0 cc] obtain x where x: "OMap_get m c = Some x" "getParentKey x = Some k" by blast
      have "c \<noteq> K" using x K O by auto
      with rsome[OF x(1)] x(2) show ?thesis by auto
    qed
  qed
  with run omr precr keysr show ?thesis by blast
qed

subsection \<open>What a tree's links give\<close>

lemma treeLinks_entry:
  assumes "treeLinks m" "OMap_get m k = Some b"
  shows "\<And>p. getParentKey b = Some p \<Longrightarrow> p \<noteq> k \<and> OMap_get m p \<noteq> None \<and>
            (\<exists>pb. OMap_get m p = Some pb \<and> k \<in> set (getChildKeys pb))"
    and "\<And>nx. getNextSiblingKey b = Some nx \<Longrightarrow> nx \<noteq> k \<and> getPrevSiblingKey b \<noteq> Some nx \<and>
            (\<exists>nb. OMap_get m nx = Some nb \<and> getParentKey nb = getParentKey b)"
    and "distinct (getChildKeys b)"
    and "getChildKeys b \<noteq> [] \<Longrightarrow>
           (\<exists>cb. OMap_get m (hd (getChildKeys b)) = Some cb \<and> getPrevSiblingKey cb = None) \<and>
           (\<exists>lb. OMap_get m (last (getChildKeys b)) = Some lb \<and> getNextSiblingKey lb = None)"
proof -
  have mem: "(k, b) \<in> set m" using assms(2) by (rule OMap_get_Some_in)
  have e: "(case getParentKey b of None \<Rightarrow> True
         | Some p \<Rightarrow> p \<noteq> k \<and>
             (case OMap_get m p of None \<Rightarrow> False | Some pb \<Rightarrow> k \<in> set (getChildKeys pb))) \<and>
        (case getNextSiblingKey b of None \<Rightarrow> True
         | Some nx \<Rightarrow> nx \<noteq> k \<and> getPrevSiblingKey b \<noteq> Some nx \<and>
             (case OMap_get m nx of None \<Rightarrow> False | Some nb \<Rightarrow> getParentKey nb = getParentKey b)) \<and>
        distinct (getChildKeys b) \<and>
        (case getChildKeys b of [] \<Rightarrow> True
         | c # cs \<Rightarrow>
             (case OMap_get m c of None \<Rightarrow> False | Some cb \<Rightarrow> getPrevSiblingKey cb = None) \<and>
             (case OMap_get m (last (c # cs)) of None \<Rightarrow> False
              | Some lb \<Rightarrow> getNextSiblingKey lb = None))"
    using assms(1) mem unfolding treeLinks_def by blast
  show "\<And>p. getParentKey b = Some p \<Longrightarrow> p \<noteq> k \<and> OMap_get m p \<noteq> None \<and>
            (\<exists>pb. OMap_get m p = Some pb \<and> k \<in> set (getChildKeys pb))"
    using e by (auto split: option.splits)
  show "\<And>nx. getNextSiblingKey b = Some nx \<Longrightarrow> nx \<noteq> k \<and> getPrevSiblingKey b \<noteq> Some nx \<and>
            (\<exists>nb. OMap_get m nx = Some nb \<and> getParentKey nb = getParentKey b)"
    using e by (auto split: option.splits)
  show "distinct (getChildKeys b)" using e by simp
  show "getChildKeys b \<noteq> [] \<Longrightarrow>
           (\<exists>cb. OMap_get m (hd (getChildKeys b)) = Some cb \<and> getPrevSiblingKey cb = None) \<and>
           (\<exists>lb. OMap_get m (last (getChildKeys b)) = Some lb \<and> getNextSiblingKey lb = None)"
    using e by (cases "getChildKeys b") (auto split: option.splits)
qed

lemma length_takeWhile_neq_less:
  "b \<in> set ks \<Longrightarrow> length (takeWhile (\<lambda>k. k \<noteq> b) ks) < length ks"
  by (induction ks) auto

lemma precedes_index:
  assumes "precedes m a b"
  shows "\<exists>i j. i < j \<and> j < length (OMap_keys m) \<and> OMap_keys m ! i = a \<and> OMap_keys m ! j = b"
proof -
  let ?ks = "OMap_keys m"
  let ?n = "length (takeWhile (\<lambda>k. k \<noteq> b) ?ks)"
  from assms have a: "a \<in> set (takeWhile (\<lambda>k. k \<noteq> b) ?ks)" and b: "b \<in> set ?ks"
    by (simp_all add: precedes_def)
  from a obtain i where i: "i < ?n" "takeWhile (\<lambda>k. k \<noteq> b) ?ks ! i = a"
    by (auto simp: in_set_conv_nth)
  have n: "?n < length ?ks" using b by (rule length_takeWhile_neq_less)
  then have "\<not> (?ks ! ?n \<noteq> b)" by (rule nth_length_takeWhile)
  moreover have "?ks ! i = a" using i by (simp add: takeWhile_nth)
  ultimately show ?thesis using i(1) n by blast
qed

lemma precedes_asym:
  assumes "ordered_map m" "precedes m a b"
  shows "\<not> precedes m b a"
proof
  assume "precedes m b a"
  from precedes_index[OF this] obtain i j where
    1: "i < j" "j < length (OMap_keys m)" "OMap_keys m ! i = b" "OMap_keys m ! j = a" by blast
  from precedes_index[OF assms(2)] obtain i' j' where
    2: "i' < j'" "j' < length (OMap_keys m)" "OMap_keys m ! i' = a" "OMap_keys m ! j' = b" by blast
  have d: "distinct (OMap_keys m)" using assms(1) by (simp add: ordered_map_def)
  have "j = i'" using nth_eq_iff_index_eq[OF d, of j i'] 1 2 by simp
  moreover have "i = j'" using nth_eq_iff_index_eq[OF d, of i j'] 1 2 by simp
  ultimately show False using 1(1) 2(1) by simp
qed

lemma parentsFirst_entry:
  assumes "parentsFirst m" "OMap_get m k = Some b" "getParentKey b = Some p"
  shows "precedes m p k"
  using assms OMap_get_Some_in[OF assms(2)] unfolding parentsFirst_def by fastforce

section \<open>The claims\<close>

subsection \<open>updateParentChild\<close>

text \<open>
  C5 (as amended). Let \<open>parentKey\<close> and \<open>childKey\<close> resolve to blocks, let
  \<open>0 \<le> position \<le> count(children)\<close>, and let the children at \<open>position - 1\<close> and at
  \<open>position\<close> (where there are such) resolve to blocks too. Then \<open>updateParentChild\<close>
  returns a map with the same keys in the same order in which the child has
  \<open>parent = parentKey\<close>, \<open>prevSibling\<close> the key before it or none and \<open>nextSibling\<close> the
  key after it or none, whatever it held before. The parent's list of children gains
  \<open>childKey\<close> at \<open>position\<close> when \<open>parentKey\<close> is neither \<open>childKey\<close> nor one of the two
  neighbours; the child at \<open>position - 1\<close> gets \<open>nextSibling = childKey\<close> when it is neither
  \<open>childKey\<close> nor the child at \<open>position\<close>; the child at \<open>position\<close> gets
  \<open>prevSibling = childKey\<close> when it is not \<open>childKey\<close>. (The staged blocks are properties of
  one object keyed by block key: a later write under the same key replaces the earlier
  one.)
\<close>

theorem updateParentChild_links:
  assumes p: "OMap_get blockMap parentKey = Some parent"
    and c: "OMap_get blockMap childKey = Some child"
    and cs: "cs = getChildKeys parent"
    and pos: "0 \<le> position" "position \<le> int (length cs)"
    and pn: "0 < position \<Longrightarrow> OMap_get blockMap (cs ! nat (position - 1)) \<noteq> None"
    and nn: "position < int (length cs) \<Longrightarrow> OMap_get blockMap (cs ! nat position) \<noteq> None"
  shows "\<exists>m'. updateParentChild blockMap parentKey childKey position = Inr m' \<and>
      OMap_keys m' = OMap_keys blockMap \<and>
      OMap_get m' childKey =
        Some (child\<lparr>getParentKey := Some parentKey,
                getPrevSiblingKey := (if 0 < position then Some (cs ! nat (position - 1)) else None),
                getNextSiblingKey := (if position < int (length cs) then Some (cs ! nat position) else None)\<rparr>) \<and>
      (parentKey \<noteq> childKey \<and> (0 < position \<longrightarrow> cs ! nat (position - 1) \<noteq> parentKey) \<and>
       (position < int (length cs) \<longrightarrow> cs ! nat position \<noteq> parentKey) \<longrightarrow>
         OMap_get m' parentKey =
           Some (parent\<lparr>getChildKeys := take (nat position) cs @ [childKey] @ drop (nat position) cs\<rparr>)) \<and>
      (0 < position \<and> cs ! nat (position - 1) \<noteq> childKey \<and>
       (position < int (length cs) \<longrightarrow> cs ! nat position \<noteq> cs ! nat (position - 1)) \<longrightarrow>
         (\<exists>n. OMap_get m' (cs ! nat (position - 1)) = Some n \<and> getNextSiblingKey n = Some childKey)) \<and>
      (position < int (length cs) \<and> cs ! nat position \<noteq> childKey \<longrightarrow>
         (\<exists>n. OMap_get m' (cs ! nat position) = Some n \<and> getPrevSiblingKey n = Some childKey))"
proof -
  obtain pnode where pnode: "0 < position \<Longrightarrow> OMap_get blockMap (getChildKeys parent ! nat (position - 1)) = Some pnode"
    using pn cs by (cases "0 < position") auto
  obtain nnode where nnode: "position < int (length (getChildKeys parent)) \<Longrightarrow> OMap_get blockMap (getChildKeys parent ! nat position) = Some nnode"
    using nn cs by (cases "position < int (length cs)") auto
  from updateParentChild_result[OF p c pos[unfolded cs] pnode nnode]
  obtain m' where m': "updateParentChild blockMap parentKey childKey position = Inr m'"
    "OMap_keys m' = OMap_keys blockMap"
    "\<And>k. OMap_get m' k =
        (if k = childKey then
           Some (child\<lparr>getParentKey := Some parentKey,
                   getPrevSiblingKey := (if 0 < position then Some (cs ! nat (position - 1)) else None),
                   getNextSiblingKey := (if position < int (length cs) then Some (cs ! nat position) else None)\<rparr>)
         else if position < int (length cs) \<and> k = cs ! nat position then
           Some (nnode\<lparr>getPrevSiblingKey := Some childKey\<rparr>)
         else if 0 < position \<and> k = cs ! nat (position - 1) then
           Some (pnode\<lparr>getNextSiblingKey := Some childKey\<rparr>)
         else if k = parentKey then
           Some (parent\<lparr>getChildKeys := take (nat position) cs @ [childKey] @ drop (nat position) cs\<rparr>)
         else OMap_get blockMap k)"
    unfolding cs by blast
  show ?thesis
    by (rule exI[of _ m']) (simp add: m')
qed

text \<open>
  The scenario of C5: children \<open>[X, Y, Z]\<close> under \<open>P\<close>, and \<open>W\<close> linked at position 1.
\<close>

theorem updateParentChild_links_witness:
  "\<exists>m'. updateParentChild scenarioPXYZW ''P'' ''W'' 1 = Inr m' \<and>
      OMap_keys m' = [''P'', ''X'', ''Y'', ''Z'', ''W''] \<and>
      OMap_get m' ''W'' = Some (exampleBlock ''W'' ''w'' (Some ''P'') (Some ''X'') (Some ''Y'') []) \<and>
      OMap_get m' ''P'' = Some (exampleBlock ''P'' '''' None None None [''X'', ''W'', ''Y'', ''Z'']) \<and>
      (\<exists>n. OMap_get m' ''X'' = Some n \<and> getNextSiblingKey n = Some ''W'') \<and>
      (\<exists>n. OMap_get m' ''Y'' = Some n \<and> getPrevSiblingKey n = Some ''W'')"
  using updateParentChild_links[of scenarioPXYZW "''P''"
      "exampleBlock ''P'' '''' None None None [''X'', ''Y'', ''Z'']" "''W''"
      "exampleBlock ''W'' ''w'' None None None []" "[''X'', ''Y'', ''Z'']" 1]
  by (simp add: scenarioPXYZW_def exampleBlock_def OMap_keys_def)

text \<open>
  C5 as stated fails: linking a block under itself leaves its list of children empty,
  not the \<open>[P]\<close> that inserting gives, and a child key next to the position that is not in
  the map ends the call with a \<open>TypeError\<close>.
\<close>

theorem updateParentChild_links_counterexample:
  "updateParentChild [(''P'', exampleBlock ''P'' '''' None None None [])] ''P'' ''P'' 0 =
     Inr [(''P'', exampleBlock ''P'' '''' (Some ''P'') None None [])] \<and>
   List_splice [] 0 ''P'' = [''P''] \<and>
   updateParentChild [(''P'', exampleBlock ''P'' '''' None None None [''X'']),
                      (''W'', exampleBlock ''W'' ''w'' None None None [])] ''P'' ''W'' 1 =
     Inl TypeError"
  by (simp add: updateParentChild_def exampleBlock_def err_bind_def OMap_merge_def List_splice_def
      List_get_def wrapIndex_def)

text \<open>
  C7. \<open>updateParentChild\<close> fails with the precondition error exactly when \<open>parentKey\<close> or
  \<open>childKey\<close> does not resolve to a block, or \<open>position < 0\<close>, or
  \<open>position > count(children)\<close>. The result is then the error alone: no map is returned,
  and the argument, a value, is what it was.
\<close>

theorem updateParentChild_precondition_error:
  "(\<exists>msg. updateParentChild blockMap parentKey childKey position = Inl (InvariantViolation msg)) \<longleftrightarrow>
     (case OMap_get blockMap parentKey of
        None \<Rightarrow> True
      | Some parent \<Rightarrow>
          OMap_get blockMap childKey = None \<or> position < 0 \<or>
          int (length (getChildKeys parent)) < position)"
  by (auto simp: updateParentChild_def err_bind_def Let_def
      split: option.splits sum.splits error.splits)

theorem updateParentChild_precondition_error_witness:
  "(\<exists>msg. updateParentChild scenarioPXYZW ''missing'' ''X'' 0 = Inl (InvariantViolation msg)) \<and>
   (\<exists>msg. updateParentChild scenarioPXYZW ''P'' ''W'' 4 = Inl (InvariantViolation msg)) \<and>
   (\<exists>msg. updateParentChild scenarioPXYZW ''P'' ''W'' (-1) = Inl (InvariantViolation msg)) \<and>
   \<not> (\<exists>msg. updateParentChild scenarioPXYZW ''P'' ''W'' 3 = Inl (InvariantViolation msg))"
  using updateParentChild_precondition_error[of scenarioPXYZW "''missing''" "''X''" 0]
        updateParentChild_precondition_error[of scenarioPXYZW "''P''" "''W''" 4]
        updateParentChild_precondition_error[of scenarioPXYZW "''P''" "''W''" "-1"]
        updateParentChild_precondition_error[of scenarioPXYZW "''P''" "''W''" 3]
  by (simp add: scenarioPXYZW_def exampleBlock_def)

subsection \<open>updateSibling\<close>

text \<open>
  C10 (as amended). For a map that holds a block under \<open>k\<close>, \<open>updateSibling\<close> with \<open>k\<close> as
  both keys returns a map with the same keys in which every other entry is unchanged and
  the block under \<open>k\<close> is the old one with \<open>prevSibling = k\<close>: the second staged write
  replaces the first, and \<open>nextSibling\<close> keeps its old value. So the link in both
  directions (\<open>nextSibling = k\<close> and \<open>prevSibling = k\<close>) is there afterwards exactly when
  \<open>nextSibling\<close> of the block was \<open>k\<close> before.
\<close>

theorem updateSibling_same_key:
  assumes "OMap_get blockMap k = Some n"
  shows "\<exists>m' n'. updateSibling blockMap k k = Inr m' \<and> OMap_get m' k = Some n' \<and>
           n' = n\<lparr>getPrevSiblingKey := Some k\<rparr> \<and>
           getPrevSiblingKey n' = Some k \<and> getNextSiblingKey n' = getNextSiblingKey n \<and>
           ((getNextSiblingKey n' = Some k \<and> getPrevSiblingKey n' = Some k) =
              (getNextSiblingKey n = Some k)) \<and>
           OMap_keys m' = OMap_keys blockMap \<and>
           (\<forall>j. j \<noteq> k \<longrightarrow> OMap_get m' j = OMap_get blockMap j)"
  using updateSibling_result[OF assms assms] by auto

theorem updateSibling_same_key_witness:
  "\<exists>m' n'. updateSibling scenarioAB ''A'' ''A'' = Inr m' \<and>
     OMap_get m' ''A'' = Some n' \<and> getPrevSiblingKey n' = Some ''A'' \<and>
     getNextSiblingKey n' = Some ''B'' \<and> getNextSiblingKey n' \<noteq> Some ''A'' \<and>
     OMap_get m' ''B'' = OMap_get scenarioAB ''B''"
  using updateSibling_same_key[of scenarioAB "''A''"
       "exampleBlock ''A'' ''a'' None None (Some ''B'') []"]
  by (auto simp: scenarioAB_def exampleBlock_def)

text \<open>
  C10 as stated fails: when the block under \<open>k\<close> already names \<open>k\<close> as its next sibling,
  the returned map has both \<open>nextSibling = k\<close> and \<open>prevSibling = k\<close>, which is the link
  in both directions.
\<close>

theorem updateSibling_same_key_counterexample:
  "updateSibling [(''A'', exampleBlock ''A'' ''a'' None None (Some ''A'') [])] ''A'' ''A'' =
     Inr [(''A'', exampleBlock ''A'' ''a'' None (Some ''A'') (Some ''A'') [])]"
  by (simp add: updateSibling_def OMap_merge_def exampleBlock_def)

subsection \<open>replaceParentChild\<close>

text \<open>
  C8 (as amended). Let \<open>parentKey\<close> and \<open>newChildKey\<close> resolve to two different blocks
  and let \<open>existingChildKey\<close> occur in the parent's children. Then \<open>replaceParentChild\<close>
  returns a map with the same keys in the same order; the parent's block is the old one
  with the first slot that holds \<open>existingChildKey\<close> overwritten by \<open>newChildKey\<close>; the new
  child's block is the old one with \<open>parent = parentKey\<close>; every other key maps to the
  block it mapped to. No block changes its sibling links, and no block but the new child
  changes its \<open>parent\<close> field.
\<close>

theorem replaceParentChild_frame:
  assumes p: "OMap_get blockMap parentKey = Some parent"
    and c: "OMap_get blockMap newChildKey = Some newChild"
    and cs: "cs = getChildKeys parent"
    and old: "existingChildKey \<in> set cs"
    and ne: "parentKey \<noteq> newChildKey"
    and idx: "idx = List_indexOf cs existingChildKey"
  shows "\<exists>m'. replaceParentChild blockMap parentKey existingChildKey newChildKey = Inr m' \<and>
      OMap_keys m' = OMap_keys blockMap \<and>
      0 \<le> idx \<and> idx < int (length cs) \<and> cs ! nat idx = existingChildKey \<and>
      existingChildKey \<notin> set (take (nat idx) cs) \<and>
      OMap_get m' parentKey = Some (parent\<lparr>getChildKeys := cs[nat idx := newChildKey]\<rparr>) \<and>
      OMap_get m' newChildKey = Some (newChild\<lparr>getParentKey := Some parentKey\<rparr>) \<and>
      (\<forall>k. k \<noteq> parentKey \<and> k \<noteq> newChildKey \<longrightarrow> OMap_get m' k = OMap_get blockMap k) \<and>
      (\<forall>k n. OMap_get blockMap k = Some n \<longrightarrow>
         (\<exists>n'. OMap_get m' k = Some n' \<and>
               getPrevSiblingKey n' = getPrevSiblingKey n \<and>
               getNextSiblingKey n' = getNextSiblingKey n \<and>
               (k \<noteq> newChildKey \<longrightarrow> getParentKey n' = getParentKey n)))"
proof -
  from List_indexOf_in[OF old] obtain j where
    j: "j < length cs" "idx = int j" "cs ! j = existingChildKey" "existingChildKey \<notin> set (take j cs)"
    unfolding idx by blast
  have upd: "List_set (getChildKeys parent) (List_indexOf (getChildKeys parent) existingChildKey) newChildKey
      = cs[j := newChildKey]"
    using j(1,2) List_set_in_range[of j cs newChildKey] unfolding idx cs by simp
  from replaceParentChild_result[OF p c, of existingChildKey] obtain m' where
    m': "replaceParentChild blockMap parentKey existingChildKey newChildKey = Inr m'"
        "OMap_keys m' = OMap_keys blockMap"
        "\<And>k. OMap_get m' k =
          (if k = newChildKey then Some (newChild\<lparr>getParentKey := Some parentKey\<rparr>)
           else if k = parentKey then Some (parent\<lparr>getChildKeys := cs[j := newChildKey]\<rparr>)
           else OMap_get blockMap k)"
    unfolding upd by blast
  have frame: "\<forall>k n. OMap_get blockMap k = Some n \<longrightarrow>
         (\<exists>n'. OMap_get m' k = Some n' \<and>
               getPrevSiblingKey n' = getPrevSiblingKey n \<and>
               getNextSiblingKey n' = getNextSiblingKey n \<and>
               (k \<noteq> newChildKey \<longrightarrow> getParentKey n' = getParentKey n))"
    using p c by (simp add: m'(3))
  show ?thesis
    apply (rule exI[of _ m'])
    using j ne frame by (simp add: m')
qed

theorem replaceParentChild_frame_witness:
  "\<exists>m'. replaceParentChild scenarioPAN ''P'' ''A'' ''N'' = Inr m' \<and>
      OMap_keys m' = [''P'', ''A'', ''B'', ''N''] \<and>
      OMap_get m' ''P'' = Some (exampleBlock ''P'' '''' None None None [''N'', ''B'']) \<and>
      OMap_get m' ''N'' = Some (exampleBlock ''N'' '''' (Some ''P'') (Some ''A'') None []) \<and>
      OMap_get m' ''A'' = Some (exampleBlock ''A'' ''a'' (Some ''P'') None (Some ''B'') []) \<and>
      OMap_get m' ''B'' = Some (exampleBlock ''B'' ''b'' (Some ''P'') (Some ''A'') None [])"
proof -
  have p: "OMap_get scenarioPAN ''P'' = Some (exampleBlock ''P'' '''' None None None [''A'', ''B''])"
    by (simp add: scenarioPAN_def)
  have c: "OMap_get scenarioPAN ''N'' = Some (exampleBlock ''N'' '''' None (Some ''A'') None [])"
    by (simp add: scenarioPAN_def)
  have cs: "[''A'', ''B''] = getChildKeys (exampleBlock ''P'' '''' None None None [''A'', ''B''])"
    by (simp add: exampleBlock_def)
  have idx: "0 = List_indexOf [''A'', ''B''] ''A''"
    by (simp add: List_indexOf_def)
  from replaceParentChild_frame[OF p c cs _ _ idx]
  obtain m' where m': "replaceParentChild scenarioPAN ''P'' ''A'' ''N'' = Inr m'"
    "OMap_keys m' = OMap_keys scenarioPAN"
    "OMap_get m' ''P'' = Some ((exampleBlock ''P'' '''' None None None [''A'', ''B''])
        \<lparr>getChildKeys := [''A'', ''B''][nat 0 := ''N'']\<rparr>)"
    "OMap_get m' ''N'' = Some ((exampleBlock ''N'' '''' None (Some ''A'') None [])\<lparr>getParentKey := Some ''P''\<rparr>)"
    "\<forall>k. k \<noteq> ''P'' \<and> k \<noteq> ''N'' \<longrightarrow> OMap_get m' k = OMap_get scenarioPAN k"
    by fastforce
  have "OMap_get m' ''A'' = OMap_get scenarioPAN ''A''" "OMap_get m' ''B'' = OMap_get scenarioPAN ''B''"
    using m'(5) by simp_all
  then show ?thesis
    using m'(1-4) by (simp add: scenarioPAN_def exampleBlock_def OMap_keys_def)
qed

text \<open>
  C8 as stated fails when the parent is also the new child: the second staged write
  replaces the first, and the list of children stays \<open>[A]\<close>, not the \<open>[P]\<close> that
  overwriting the slot gives.
\<close>

theorem replaceParentChild_frame_counterexample:
  "replaceParentChild [(''P'', exampleBlock ''P'' '''' None None None [''A''])] ''P'' ''A'' ''P'' =
     Inr [(''P'', exampleBlock ''P'' '''' (Some ''P'') None None [''A''])] \<and>
   List_set [''A''] (List_indexOf [''A''] ''A'') ''P'' = [''P'']"
  by (simp add: replaceParentChild_def exampleBlock_def OMap_merge_def List_set_def List_indexOf_def
      wrapIndex_def)

text \<open>
  C9 (as amended). Let \<open>parentKey\<close> and \<open>newChildKey\<close> resolve to two different blocks,
  let the parent's list of children be non-empty and let \<open>existingChildKey\<close> not occur in
  it. Then \<open>replaceParentChild\<close> does not fail: \<open>indexOf\<close> gives \<open>-1\<close>, the update at
  \<open>-1\<close> overwrites the last slot, and in the returned map the parent's last child is
  \<open>newChildKey\<close>.
\<close>

theorem replaceParentChild_missing_child:
  assumes p: "OMap_get blockMap parentKey = Some parent"
    and c: "OMap_get blockMap newChildKey = Some newChild"
    and cs: "cs = getChildKeys parent"
    and nonempty: "cs \<noteq> []"
    and old: "existingChildKey \<notin> set cs"
    and ne: "parentKey \<noteq> newChildKey"
  shows "\<exists>m'. replaceParentChild blockMap parentKey existingChildKey newChildKey = Inr m' \<and>
      List_indexOf cs existingChildKey = -1 \<and>
      List_set cs (-1) newChildKey = butlast cs @ [newChildKey] \<and>
      OMap_get m' parentKey = Some (parent\<lparr>getChildKeys := butlast cs @ [newChildKey]\<rparr>)"
proof -
  have upd: "List_set (getChildKeys parent) (List_indexOf (getChildKeys parent) existingChildKey) newChildKey
      = butlast cs @ [newChildKey]"
    using List_indexOf_notin[OF old] List_set_last[OF nonempty, of newChildKey] unfolding cs by simp
  from replaceParentChild_result[OF p c, of existingChildKey] obtain m' where
    m': "replaceParentChild blockMap parentKey existingChildKey newChildKey = Inr m'"
        "\<And>k. OMap_get m' k =
          (if k = newChildKey then Some (newChild\<lparr>getParentKey := Some parentKey\<rparr>)
           else if k = parentKey then Some (parent\<lparr>getChildKeys := butlast cs @ [newChildKey]\<rparr>)
           else OMap_get blockMap k)"
    unfolding upd by blast
  show ?thesis
    by (rule exI[of _ m']) (simp add: m' ne List_indexOf_notin[OF old] List_set_last[OF nonempty])
qed

theorem replaceParentChild_missing_child_witness:
  "\<exists>m'. replaceParentChild scenarioPAN ''P'' ''Q'' ''N'' = Inr m' \<and>
      List_indexOf [''A'', ''B''] ''Q'' = -1 \<and>
      List_set [''A'', ''B''] (-1) ''N'' = [''A'', ''N''] \<and>
      OMap_get m' ''P'' = Some (exampleBlock ''P'' '''' None None None [''A'', ''N''])"
proof -
  have p: "OMap_get scenarioPAN ''P'' = Some (exampleBlock ''P'' '''' None None None [''A'', ''B''])"
    by (simp add: scenarioPAN_def)
  have c: "OMap_get scenarioPAN ''N'' = Some (exampleBlock ''N'' '''' None (Some ''A'') None [])"
    by (simp add: scenarioPAN_def)
  have cs: "[''A'', ''B''] = getChildKeys (exampleBlock ''P'' '''' None None None [''A'', ''B''])"
    by (simp add: exampleBlock_def)
  from replaceParentChild_missing_child[OF p c cs, of "''Q''"]
  show ?thesis by (simp add: exampleBlock_def)
qed

text \<open>
  C9 as stated fails when the parent is also the new child: the call returns, and the
  list of children is \<open>[A, B]\<close> as before, not the \<open>[A, P]\<close> that overwriting the last
  slot gives.
\<close>

theorem replaceParentChild_missing_child_counterexample:
  "replaceParentChild [(''P'', exampleBlock ''P'' '''' None None None [''A'', ''B''])] ''P'' ''Q'' ''P'' =
     Inr [(''P'', exampleBlock ''P'' '''' (Some ''P'') None None [''A'', ''B''])] \<and>
   List_set [''A'', ''B''] (List_indexOf [''A'', ''B''] ''Q'') ''P'' = [''A'', ''P'']"
  by (simp add: replaceParentChild_def exampleBlock_def OMap_merge_def List_set_def List_indexOf_def
      wrapIndex_def)

subsection \<open>createNewParent\<close>

text \<open>
  C3. For the map \<open>{A, B}\<close> with \<open>A.nextSibling = B\<close>, \<open>B.prevSibling = A\<close>, no children and
  no parents, and a generated key \<open>N\<close> other than \<open>A\<close> and \<open>B\<close>, \<open>createNewParent\<close> on
  \<open>A\<close> returns the map with iteration order \<open>[N, A, B]\<close> in which \<open>N\<close> has empty text,
  the depth and type of \<open>A\<close>, children \<open>[A]\<close> and \<open>nextSibling = B\<close>; \<open>A\<close> has
  \<open>parent = N\<close> and no siblings; \<open>B\<close> has \<open>prevSibling = N\<close>. With development checks on,
  it returns that map when the validity predicate accepts both the argument and the
  result, and the precondition error otherwise.
\<close>

theorem createNewParent_scenario:
  assumes a: "a = \<lparr>getKey = ''A'', getText = ta, getDepth = da, getType = tya, getParentKey = None,
                  getPrevSiblingKey = None, getNextSiblingKey = Some ''B'', getChildKeys = []\<rparr>"
    and b: "b = \<lparr>getKey = ''B'', getText = tb, getDepth = db, getType = tyb, getParentKey = None,
                  getPrevSiblingKey = Some ''A'', getNextSiblingKey = None, getChildKeys = []\<rparr>"
    and fresh: "N \<noteq> ''A''" "N \<noteq> ''B''"
    and r: "r = [(N, \<lparr>getKey = N, getText = '''', getDepth = da, getType = tya, getParentKey = None,
                      getPrevSiblingKey = None, getNextSiblingKey = Some ''B'', getChildKeys = [''A'']\<rparr>),
                (''A'', a\<lparr>getParentKey := Some N, getPrevSiblingKey := None, getNextSiblingKey := None\<rparr>),
                (''B'', b\<lparr>getPrevSiblingKey := Some N\<rparr>)]"
  shows "createNewParent dev isValidTree N [(''A'', a), (''B'', b)] ''A'' =
           (if dev \<and> \<not> (isValidTree [(''A'', a), (''B'', b)] \<and> isValidTree r)
            then Inl (InvariantViolation ''The tree is not valid'') else Inr r)"
  using fresh unfolding a b r
  by (simp add: createNewParent_def verifyTree_def err_bind_def OMap_concat_def OrderedMap_def
      OMap_takeUntil_def OMap_skipUntil_def updateParentChild_def updateSibling_def OMap_merge_def
      List_splice_def)

theorem createNewParent_scenario_witness:
  "createNewParent False (\<lambda>t. True) ''N'' scenarioAB ''A'' =
     Inr [(''N'', exampleBlock ''N'' '''' None None (Some ''B'') [''A'']),
          (''A'', exampleBlock ''A'' ''a'' (Some ''N'') None None []),
          (''B'', exampleBlock ''B'' ''b'' None (Some ''N'') None [])]"
  using createNewParent_scenario[of "exampleBlock ''A'' ''a'' None None (Some ''B'') []"
      "''a''" 0 "''unstyled''" "exampleBlock ''B'' ''b'' None (Some ''A'') None []"
      "''b''" 0 "''unstyled''" "''N''" _ False "\<lambda>t. True"]
  by (simp add: scenarioAB_def exampleBlock_def)

subsection \<open>updateAsSiblingsChild\<close>

text \<open>
  Adoption under the next sibling, for every argument. Let the block map have the links
  of a tree, with parents before their children in iteration order, let \<open>key\<close> have the
  next sibling \<open>S\<close>, and let the text of \<open>S\<close> be empty. Then \<open>updateAsSiblingsChild\<close> with
  \<open>next\<close> produces a map \<open>r\<close> in which \<open>S\<close> comes before \<open>key\<close> in iteration order, \<open>S\<close>
  is the parent of \<open>key\<close>, \<open>key\<close> is the first child of \<open>S\<close> in front of its old
  children, and the former parent of \<open>key\<close> (if any) no longer lists \<open>key\<close> and keeps its
  own sibling links. With development checks off \<open>r\<close> is what the call returns; with
  them on, it returns \<open>r\<close> only when the validity predicate accepts the argument and
  \<open>r\<close>, and ends with the precondition error otherwise.
\<close>

lemma updateAsSiblingsChild_next:
  assumes tl: "treeLinks blockMap" and pf: "parentsFirst blockMap"
    and K: "OMap_get blockMap key = Some block"
    and nx: "getNextSiblingKey block = Some S"
    and S: "OMap_get blockMap S = Some newParent"
    and emp: "getText newParent = []"
  shows "\<exists>r. updateAsSiblingsChild dev isValidTree blockMap key SiblingNext =
             (if dev \<and> \<not> (isValidTree blockMap \<and> isValidTree r)
              then Inl (InvariantViolation ''The tree is not valid'') else Inr r) \<and>
          precedes r S key \<and>
          (\<exists>b'. OMap_get r key = Some b' \<and> getParentKey b' = Some S) \<and>
          (\<exists>s'. OMap_get r S = Some s' \<and> getChildKeys s' = key # getChildKeys newParent) \<and>
          (case getParentKey block of None \<Rightarrow> True
           | Some P \<Rightarrow>
               (\<exists>pn pn'. OMap_get blockMap P = Some pn \<and> OMap_get r P = Some pn' \<and>
                   getChildKeys pn' = remove1 key (getChildKeys pn) \<and>
                   key \<notin> set (getChildKeys pn') \<and>
                   getPrevSiblingKey pn' = getPrevSiblingKey pn \<and>
                   getNextSiblingKey pn' = getNextSiblingKey pn))"
proof -
  have om: "ordered_map blockMap" and kc: "keys_consistent blockMap" and sym: "symmetric blockMap"
    using tl by (simp_all add: treeLinks_def)
  note s = sym[unfolded symmetric_iff[OF om], rule_format]
  note e = treeLinks_entry[OF tl]
  have KS: "key \<noteq> S" using e(2)[OF K nx] by auto
  have sameparent: "getParentKey newParent = getParentKey block" using e(2)[OF K nx] S by auto
  have nopar: "getParentKey block \<noteq> Some S" using sameparent e(1)[OF S, of S] by auto
  have first: "case getChildKeys newParent of [] \<Rightarrow> True
                | c0 # rest \<Rightarrow> OMap_get blockMap c0 \<noteq> None \<and> c0 \<noteq> S \<and> getParentKey block \<noteq> Some c0"
  proof (cases "getChildKeys newParent")
    case Nil
    then show ?thesis by simp
  next
    case (Cons c0 rest)
    then have "c0 \<in> set (getChildKeys newParent)" by simp
    with s[OF S] obtain cb where cb: "OMap_get blockMap c0 = Some cb" "getParentKey cb = Some S"
      by blast
    have c0S: "c0 \<noteq> S" using e(1)[OF cb] by auto
    have "getParentKey block \<noteq> Some c0"
    proof
      assume "getParentKey block = Some c0"
      then have "getParentKey newParent = Some c0" using sameparent by simp
      from parentsFirst_entry[OF pf S this] parentsFirst_entry[OF pf cb]
      show False using precedes_asym[OF om] by blast
    qed
    with cb c0S show ?thesis by (simp add: Cons)
  qed
  have prev: "case getPrevSiblingKey block of None \<Rightarrow> True
               | Some pv \<Rightarrow> OMap_get blockMap pv \<noteq> None \<and> getParentKey block \<noteq> Some pv"
  proof (cases "getPrevSiblingKey block")
    case None
    then show ?thesis by simp
  next
    case (Some pv)
    with s[OF K] obtain x where x: "OMap_get blockMap pv = Some x" "getNextSiblingKey x = Some key"
      by blast
    from e(2)[OF x] K have "getParentKey block = getParentKey x" by auto
    then have "getParentKey block \<noteq> Some pv" using e(1)[OF x(1), of pv] by auto
    with x show ?thesis by (simp add: Some)
  qed
  have par: "case getParentKey block of None \<Rightarrow> True
              | Some P \<Rightarrow> precedes blockMap P key \<and> P \<noteq> S \<and>
                  (case OMap_get blockMap P of None \<Rightarrow> False
                   | Some pn \<Rightarrow> key \<in> set (getChildKeys pn))"
  proof (cases "getParentKey block")
    case None
    then show ?thesis by simp
  next
    case (Some P)
    from e(1)[OF K Some] obtain pn where "OMap_get blockMap P = Some pn" "key \<in> set (getChildKeys pn)"
      by blast
    with parentsFirst_entry[OF pf K Some] nopar Some show ?thesis by simp
  qed
  from updateAsSiblingsChild_next_core[OF om kc K nx S emp KS first prev par, of dev isValidTree]
  obtain r where r: "updateAsSiblingsChild dev isValidTree blockMap key SiblingNext =
             (if dev \<and> \<not> (isValidTree blockMap \<and> isValidTree r)
              then Inl (InvariantViolation ''The tree is not valid'') else Inr r)"
      "precedes r S key"
      "\<exists>b'. OMap_get r key = Some b' \<and> getParentKey b' = Some S"
      "\<exists>s'. OMap_get r S = Some s' \<and> getChildKeys s' = key # getChildKeys newParent"
      "case getParentKey block of None \<Rightarrow> True
           | Some P \<Rightarrow>
               (\<exists>pn pn'. OMap_get blockMap P = Some pn \<and> OMap_get r P = Some pn' \<and>
                   getChildKeys pn' = remove1 key (getChildKeys pn) \<and>
                   getPrevSiblingKey pn' = getPrevSiblingKey pn \<and>
                   getNextSiblingKey pn' = getNextSiblingKey pn)"
    by blast
  have "case getParentKey block of None \<Rightarrow> True
           | Some P \<Rightarrow>
               (\<exists>pn pn'. OMap_get blockMap P = Some pn \<and> OMap_get r P = Some pn' \<and>
                   getChildKeys pn' = remove1 key (getChildKeys pn) \<and>
                   key \<notin> set (getChildKeys pn') \<and>
                   getPrevSiblingKey pn' = getPrevSiblingKey pn \<and>
                   getNextSiblingKey pn' = getNextSiblingKey pn)"
  proof (cases "getParentKey block")
    case None
    then show ?thesis by simp
  next
    case (Some P)
    with r(5) obtain pn pn' where p: "OMap_get blockMap P = Some pn" "OMap_get r P = Some pn'"
        "getChildKeys pn' = remove1 key (getChildKeys pn)"
        "getPrevSiblingKey pn' = getPrevSiblingKey pn"
        "getNextSiblingKey pn' = getNextSiblingKey pn"
      by auto
    from e(3)[OF p(1)] p(3) have "key \<notin> set (getChildKeys pn')" by simp
    with p show ?thesis by (simp add: Some)
  qed
  with r(1-4) show ?thesis by blast
qed

lemma updateAsSiblingsChild_next_witness:
  "treeLinks scenarioTree \<and> parentsFirst scenarioTree \<and>
   (\<exists>r. updateAsSiblingsChild False (\<lambda>t. True) scenarioTree ''K'' SiblingNext = Inr r \<and>
      precedes r ''S'' ''K'' \<and>
      (\<exists>b'. OMap_get r ''K'' = Some b' \<and> getParentKey b' = Some ''S'') \<and>
      (\<exists>s'. OMap_get r ''S'' = Some s' \<and> getChildKeys s' = [''K'', ''C'']) \<and>
      (\<exists>pn'. OMap_get r ''P'' = Some pn' \<and> getChildKeys pn' = [''X'', ''S''] \<and>
          getPrevSiblingKey pn' = None \<and> getNextSiblingKey pn' = None))"
proof -
  have tl: "treeLinks scenarioTree"
    by (simp add: treeLinks_def scenarioTree_def ordered_map_def keys_consistent_def symmetric_def
        OMap_keys_def exampleBlock_def)
  have pf: "parentsFirst scenarioTree"
    by (simp add: parentsFirst_def precedes_def scenarioTree_def OMap_keys_def exampleBlock_def)
  have K: "OMap_get scenarioTree ''K'' = Some (exampleBlock ''K'' ''k'' (Some ''P'') (Some ''X'') (Some ''S'') [])"
    by (simp add: scenarioTree_def)
  have nx: "getNextSiblingKey (exampleBlock ''K'' ''k'' (Some ''P'') (Some ''X'') (Some ''S'') []) = Some ''S''"
    by (simp add: exampleBlock_def)
  have S: "OMap_get scenarioTree ''S'' = Some (exampleBlock ''S'' '''' (Some ''P'') (Some ''K'') None [''C''])"
    by (simp add: scenarioTree_def)
  have emp: "getText (exampleBlock ''S'' '''' (Some ''P'') (Some ''K'') None [''C'']) = []"
    by (simp add: exampleBlock_def)
  have P: "OMap_get scenarioTree ''P'' = Some (exampleBlock ''P'' '''' None None None [''X'', ''K'', ''S''])"
    by (simp add: scenarioTree_def)
  have parK: "getParentKey (exampleBlock ''K'' ''k'' (Some ''P'') (Some ''X'') (Some ''S'') []) = Some ''P''"
    by (simp add: exampleBlock_def)
  note t = updateAsSiblingsChild_next[OF tl pf K nx S emp, of False "\<lambda>t. True", unfolded parK option.case]
  from t obtain r b' s' pn pn' where r:
      "updateAsSiblingsChild False (\<lambda>t. True) scenarioTree ''K'' SiblingNext =
         (if False \<and> \<not> (True \<and> True) then Inl (InvariantViolation ''The tree is not valid'') else Inr r)"
      "precedes r ''S'' ''K''"
      "OMap_get r ''K'' = Some b'" "getParentKey b' = Some ''S''"
      "OMap_get r ''S'' = Some s'"
      "getChildKeys s' = ''K'' # getChildKeys (exampleBlock ''S'' '''' (Some ''P'') (Some ''K'') None [''C''])"
      "OMap_get scenarioTree ''P'' = Some pn" "OMap_get r ''P'' = Some pn'"
      "getChildKeys pn' = remove1 ''K'' (getChildKeys pn)"
      "getPrevSiblingKey pn' = getPrevSiblingKey pn"
      "getNextSiblingKey pn' = getNextSiblingKey pn"
    by blast
  have pn: "pn = exampleBlock ''P'' '''' None None None [''X'', ''K'', ''S'']" using r(7) P by simp
  have "updateAsSiblingsChild False (\<lambda>t. True) scenarioTree ''K'' SiblingNext = Inr r"
    using r(1) by simp
  moreover have "getChildKeys s' = [''K'', ''C'']" using r(6) by (simp add: exampleBlock_def)
  moreover have "getChildKeys pn' = [''X'', ''S'']" "getPrevSiblingKey pn' = None" "getNextSiblingKey pn' = None"
    using r(9,10,11) by (simp_all add: pn exampleBlock_def)
  ultimately have "\<exists>r. updateAsSiblingsChild False (\<lambda>t. True) scenarioTree ''K'' SiblingNext = Inr r \<and>
      precedes r ''S'' ''K'' \<and>
      (\<exists>b'. OMap_get r ''K'' = Some b' \<and> getParentKey b' = Some ''S'') \<and>
      (\<exists>s'. OMap_get r ''S'' = Some s' \<and> getChildKeys s' = [''K'', ''C'']) \<and>
      (\<exists>pn'. OMap_get r ''P'' = Some pn' \<and> getChildKeys pn' = [''X'', ''S''] \<and>
          getPrevSiblingKey pn' = None \<and> getNextSiblingKey pn' = None)"
    using r(2,3,4,5,8) by blast
  with tl pf show ?thesis by blast
qed

lemma scenarioKS_valid: "treeLinks scenarioKS \<and> parentsFirst scenarioKS"
  by (simp add: treeLinks_def parentsFirst_def precedes_def scenarioKS_def ordered_map_def
      keys_consistent_def symmetric_def OMap_keys_def exampleBlock_def)

text \<open>
  C2 fails on the code. With development checks off, adopting \<open>K\<close> under its next
  sibling \<open>S\<close> rebuilds the map from the blocks before \<open>K\<close>, then \<open>S\<close> and \<open>K\<close>, then the
  blocks after \<open>S\<close>: a block between \<open>K\<close> and \<open>S\<close> (here \<open>K1\<close>, the child of \<open>K\<close>) is
  not in the returned map. The argument has the links of a tree, parents first
  (\<open>scenarioKS_valid\<close>).
\<close>

theorem updateAsSiblingsChild_next_drops_block:
  "updateAsSiblingsChild False isValidTree scenarioKS ''K'' SiblingNext =
     Inr [(''S'', exampleBlock ''S'' '''' None None None [''K'']),
          (''K'', exampleBlock ''K'' '''' (Some ''S'') None None [''K1''])] \<and>
   ''K1'' \<in> set (OMap_keys scenarioKS)"
  by (simp add: updateAsSiblingsChild_def verifyTree_def err_bind_def scenarioKS_def exampleBlock_def
      updateParentChild_def updateSibling_def clearSibling_def flipOrder_def removeFromParent_def
      OMap_merge_def OMap_concat_def OrderedMap_def OMap_takeUntil_def OMap_skipUntil_def
      OMap_slice_def OMap_keys_def List_splice_def)

text \<open>
  C4 fails on the code. The map \<open>scenarioKS\<close> has the links of a tree, parents first,
  \<open>K\<close> has the next sibling \<open>S\<close> and the text of \<open>S\<close> is empty. With development checks on,
  adopting \<open>K\<close> under \<open>S\<close> returns no map: the map the operation builds has lost \<open>K1\<close>,
  which \<open>K\<close> still lists as its child, so the closing \<open>verifyTree\<close> ends the call with
  \<open>The tree is not valid\<close>. This is shown with the links of a tree as the validity
  predicate, and for any validity predicate the call returns only if that predicate
  accepts the map without \<open>K1\<close>.
\<close>

theorem updateAsSiblingsChild_next_rejected:
  "treeLinks scenarioKS \<and> parentsFirst scenarioKS \<and>
   updateAsSiblingsChild True treeLinks scenarioKS ''K'' SiblingNext =
     Inl (InvariantViolation ''The tree is not valid'') \<and>
   updateAsSiblingsChild True isValidTree scenarioKS ''K'' SiblingNext =
     (if isValidTree scenarioKS \<and>
         isValidTree [(''S'', exampleBlock ''S'' '''' None None None [''K'']),
                      (''K'', exampleBlock ''K'' '''' (Some ''S'') None None [''K1''])]
      then Inr [(''S'', exampleBlock ''S'' '''' None None None [''K'']),
                (''K'', exampleBlock ''K'' '''' (Some ''S'') None None [''K1''])]
      else Inl (InvariantViolation ''The tree is not valid''))"
  by (simp add: updateAsSiblingsChild_def verifyTree_def err_bind_def scenarioKS_def exampleBlock_def
      updateParentChild_def updateSibling_def clearSibling_def flipOrder_def removeFromParent_def
      OMap_merge_def OMap_concat_def OrderedMap_def OMap_takeUntil_def OMap_skipUntil_def
      OMap_slice_def OMap_keys_def List_splice_def
      treeLinks_def parentsFirst_def precedes_def ordered_map_def keys_consistent_def symmetric_def)

theorem updateAsSiblingsChild_next_rejected_witness:
  "\<not> (\<exists>r. updateAsSiblingsChild True treeLinks scenarioKS ''K'' SiblingNext = Inr r)"
  using updateAsSiblingsChild_next_rejected[of treeLinks, THEN conjunct2, THEN conjunct2, THEN conjunct1]
  by simp

text \<open>
  C6 fails on the code. With development checks off, a sibling key that is not in the
  map ends \<open>updateAsSiblingsChild\<close> with a \<open>TypeError\<close>, not with the precondition error.
\<close>

theorem updateAsSiblingsChild_absent_sibling:
  "updateAsSiblingsChild False isValidTree
     [(''A'', exampleBlock ''A'' ''a'' None None (Some ''Z'') [])] ''A'' SiblingNext = Inl TypeError"
  by (simp add: updateAsSiblingsChild_def verifyTree_def err_bind_def exampleBlock_def)

subsection \<open>Symmetry of the links\<close>

text \<open>
  C1 (as amended). Let the block map have the links of a tree and hold a block under
  \<open>key\<close>. Then the map that \<open>createNewParent\<close> produces for a generated key not in the map
  has symmetric links; so has the map that \<open>updateAsSiblingsChild\<close> produces for
  \<open>previous\<close> when the previous sibling has empty text, and for \<open>next\<close> when the next
  sibling has empty text and directly follows \<open>key\<close> in iteration order. (The produced
  map is what the call returns, unless development checks are on and the validity
  predicate rejects the argument or the produced map.) The three primitives are left
  out: they mirror the links they write and leave the other links as they were.
\<close>

theorem composite_operations_symmetric:
  assumes tl: "treeLinks blockMap" and K: "OMap_get blockMap key = Some block"
  shows "(newKey \<notin> set (OMap_keys blockMap) \<longrightarrow>
           (\<exists>r. createNewParent dev isValidTree newKey blockMap key =
                  (if dev \<and> \<not> (isValidTree blockMap \<and> isValidTree r)
                   then Inl (InvariantViolation ''The tree is not valid'') else Inr r) \<and>
                symmetric r)) \<and>
         (\<forall>S sp. getPrevSiblingKey block = Some S \<and> OMap_get blockMap S = Some sp \<and> getText sp = [] \<longrightarrow>
           (\<exists>r. updateAsSiblingsChild dev isValidTree blockMap key SiblingPrevious =
                  (if dev \<and> \<not> (isValidTree blockMap \<and> isValidTree r)
                   then Inl (InvariantViolation ''The tree is not valid'') else Inr r) \<and>
                symmetric r)) \<and>
         (\<forall>S sp. getNextSiblingKey block = Some S \<and> OMap_get blockMap S = Some sp \<and> getText sp = [] \<and>
                 take 2 (dropWhile (\<lambda>k. k \<noteq> key) (OMap_keys blockMap)) = [key, S] \<longrightarrow>
           (\<exists>r. updateAsSiblingsChild dev isValidTree blockMap key SiblingNext =
                  (if dev \<and> \<not> (isValidTree blockMap \<and> isValidTree r)
                   then Inl (InvariantViolation ''The tree is not valid'') else Inr r) \<and>
                symmetric r))"
proof (intro conjI impI allI)
  have om: "ordered_map blockMap" and kc: "keys_consistent blockMap" and sym: "symmetric blockMap"
    using tl by (simp_all add: treeLinks_def)
  note s = sym[unfolded symmetric_iff[OF om], rule_format]
  note e = treeLinks_entry[OF tl]
  have par: "\<exists>pn. OMap_get blockMap P = Some pn \<and> distinct (getChildKeys pn)"
    if "getParentKey block = Some P" for P
  proof -
    from e(1)[OF K that] obtain pn where pn: "OMap_get blockMap P = Some pn" by auto
    with e(3)[OF pn] show ?thesis by simp
  qed
  {
    assume fresh: "newKey \<notin> set (OMap_keys blockMap)"
    have "case getParentKey block of None \<Rightarrow> True
          | Some P \<Rightarrow> (case OMap_get blockMap P of None \<Rightarrow> False | Some pn \<Rightarrow> distinct (getChildKeys pn))"
      using par by (auto split: option.splits)
    from createNewParent_symmetric[OF om sym fresh K this, of dev isValidTree]
    show "\<exists>r. createNewParent dev isValidTree newKey blockMap key =
                  (if dev \<and> \<not> (isValidTree blockMap \<and> isValidTree r)
                   then Inl (InvariantViolation ''The tree is not valid'') else Inr r) \<and>
                symmetric r"
      by blast
  }
  {
    fix S sp
    assume a: "getPrevSiblingKey block = Some S \<and> OMap_get blockMap S = Some sp \<and> getText sp = []"
    then have pv: "getPrevSiblingKey block = Some S" and S: "OMap_get blockMap S = Some sp"
      and emp: "getText sp = []" by simp_all
    have Snext: "getNextSiblingKey sp = Some key" using s[OF K] pv S by auto
    have KS: "key \<noteq> S" using e(2)[OF S Snext] by auto
    have sameparent: "getParentKey block = getParentKey sp" using e(2)[OF S Snext] K by auto
    have nopar: "getParentKey block \<noteq> Some S" using sameparent e(1)[OF S, of S] by auto
    have lastc: "getChildKeys sp \<noteq> [] \<Longrightarrow> last (getChildKeys sp) \<noteq> S \<and>
                  (\<forall>x. OMap_get blockMap (last (getChildKeys sp)) = Some x \<longrightarrow> getNextSiblingKey x = None)"
    proof -
      assume ne: "getChildKeys sp \<noteq> []"
      then have "last (getChildKeys sp) \<in> set (getChildKeys sp)" by simp
      with s[OF S] have "\<exists>cb. OMap_get blockMap (last (getChildKeys sp)) = Some cb \<and> getParentKey cb = Some S"
        by blast
      then have "last (getChildKeys sp) \<noteq> S" using S e(1)[OF S, of S] by auto
      with e(4)[OF S ne] show ?thesis by auto
    qed
    have nxt: "getNextSiblingKey block \<noteq> Some S" using e(2)[OF K, of S] pv by auto
    from adoptPrevious_symmetric[OF om sym K pv S emp KS refl nopar lastc nxt par, of dev isValidTree]
    show "\<exists>r. updateAsSiblingsChild dev isValidTree blockMap key SiblingPrevious =
                  (if dev \<and> \<not> (isValidTree blockMap \<and> isValidTree r)
                   then Inl (InvariantViolation ''The tree is not valid'') else Inr r) \<and>
                symmetric r"
      by blast
  }
  {
    fix S sp
    assume a: "getNextSiblingKey block = Some S \<and> OMap_get blockMap S = Some sp \<and> getText sp = [] \<and>
                 take 2 (dropWhile (\<lambda>k. k \<noteq> key) (OMap_keys blockMap)) = [key, S]"
    then have nx: "getNextSiblingKey block = Some S" and S: "OMap_get blockMap S = Some sp"
      and emp: "getText sp = []"
      and adj: "take 2 (dropWhile (\<lambda>k. k \<noteq> key) (OMap_keys blockMap)) = [key, S]" by simp_all
    have KS: "key \<noteq> S" using e(2)[OF K nx] by auto
    have sameparent: "getParentKey sp = getParentKey block" using e(2)[OF K nx] S by auto
    have nopar: "getParentKey block \<noteq> Some S" using sameparent e(1)[OF S, of S] by auto
    have firstc: "getChildKeys sp \<noteq> [] \<Longrightarrow> hd (getChildKeys sp) \<noteq> S \<and>
                  (\<forall>x. OMap_get blockMap (hd (getChildKeys sp)) = Some x \<longrightarrow> getPrevSiblingKey x = None)"
    proof -
      assume ne: "getChildKeys sp \<noteq> []"
      then have "hd (getChildKeys sp) \<in> set (getChildKeys sp)" by simp
      with s[OF S] have "\<exists>cb. OMap_get blockMap (hd (getChildKeys sp)) = Some cb \<and> getParentKey cb = Some S"
        by blast
      then have "hd (getChildKeys sp) \<noteq> S" using S e(1)[OF S, of S] by auto
      with e(4)[OF S ne] show ?thesis by auto
    qed
    have prv: "getPrevSiblingKey block \<noteq> Some S" using e(2)[OF K nx] by simp
    from adoptNext_symmetric[OF om kc sym K nx S emp KS refl nopar firstc prv par adj, of dev isValidTree]
    show "\<exists>r. updateAsSiblingsChild dev isValidTree blockMap key SiblingNext =
                  (if dev \<and> \<not> (isValidTree blockMap \<and> isValidTree r)
                   then Inl (InvariantViolation ''The tree is not valid'') else Inr r) \<and>
                symmetric r"
      by blast
  }
qed

theorem composite_operations_symmetric_witness:
  "treeLinks scenarioTree \<and>
   (\<exists>r. createNewParent False (\<lambda>t. True) ''N'' scenarioTree ''K'' = Inr r \<and> symmetric r) \<and>
   (\<exists>r. updateAsSiblingsChild False (\<lambda>t. True) scenarioTree ''K'' SiblingPrevious = Inr r \<and> symmetric r) \<and>
   (\<exists>r. updateAsSiblingsChild False (\<lambda>t. True) scenarioTree ''K'' SiblingNext = Inr r \<and> symmetric r)"
proof -
  have tl: "treeLinks scenarioTree"
    by (simp add: treeLinks_def scenarioTree_def ordered_map_def keys_consistent_def symmetric_def
        OMap_keys_def exampleBlock_def)
  have K: "OMap_get scenarioTree ''K'' = Some (exampleBlock ''K'' ''k'' (Some ''P'') (Some ''X'') (Some ''S'') [])"
    by (simp add: scenarioTree_def)
  note t = composite_operations_symmetric[OF tl K, of "''N''" False "\<lambda>t. True"]
  have fresh: "''N'' \<notin> set (OMap_keys scenarioTree)" by (simp add: scenarioTree_def OMap_keys_def)
  have 1: "\<exists>r. createNewParent False (\<lambda>t. True) ''N'' scenarioTree ''K'' = Inr r \<and> symmetric r"
    using t[THEN conjunct1, rule_format, OF fresh] by simp
  have p: "getPrevSiblingKey (exampleBlock ''K'' ''k'' (Some ''P'') (Some ''X'') (Some ''S'') []) = Some ''X'' \<and>
       OMap_get scenarioTree ''X'' = Some (exampleBlock ''X'' '''' (Some ''P'') None (Some ''K'') []) \<and>
       getText (exampleBlock ''X'' '''' (Some ''P'') None (Some ''K'') []) = []"
    by (simp add: scenarioTree_def exampleBlock_def)
  have 2: "\<exists>r. updateAsSiblingsChild False (\<lambda>t. True) scenarioTree ''K'' SiblingPrevious = Inr r \<and> symmetric r"
    using t[THEN conjunct2, THEN conjunct1, rule_format, OF p] by simp
  have n: "getNextSiblingKey (exampleBlock ''K'' ''k'' (Some ''P'') (Some ''X'') (Some ''S'') []) = Some ''S'' \<and>
       OMap_get scenarioTree ''S'' = Some (exampleBlock ''S'' '''' (Some ''P'') (Some ''K'') None [''C'']) \<and>
       getText (exampleBlock ''S'' '''' (Some ''P'') (Some ''K'') None [''C'']) = [] \<and>
       take 2 (dropWhile (\<lambda>k. k \<noteq> ''K'') (OMap_keys scenarioTree)) = [''K'', ''S'']"
    by (simp add: scenarioTree_def exampleBlock_def OMap_keys_def)
  have 3: "\<exists>r. updateAsSiblingsChild False (\<lambda>t. True) scenarioTree ''K'' SiblingNext = Inr r \<and> symmetric r"
    using t[THEN conjunct2, THEN conjunct2, rule_format, OF n] by simp
  from tl 1 2 3 show ?thesis by blast
qed

text \<open>
  C1 as stated fails for the primitives: linking \<open>A\<close> to \<open>C\<close> as siblings in a map with
  symmetric links leaves \<open>B\<close> with \<open>prevSibling = A\<close> while \<open>A.nextSibling\<close> is now \<open>C\<close>.
\<close>

theorem composite_operations_symmetric_counterexample:
  "symmetric scenarioABC \<and>
   (\<exists>r. updateSibling scenarioABC ''A'' ''C'' = Inr r \<and> \<not> symmetric r)"
  by (simp add: scenarioABC_def exampleBlock_def symmetric_def updateSibling_def OMap_merge_def)

end
